theory Spec2Isabelle
  imports Complex_Main
begin

chapter \<open>MapsyBe: points of interest within walking distance\<close>

text \<open>
  A shallow embedding of the server: the point-in-polygon test, the classifier and the
  lookup of \<^verbatim>\<open>src/getNearbyPoi.js\<close>, and the quota guard, the coordinate rounding and
  the route \<^verbatim>\<open>/nearby-places\<close> of the server file. The definitions come first: the
  numbers of JavaScript, then the functions in the order of the source; the properties
  follow.
\<close>

section \<open>JavaScript numbers\<close>

text \<open>
  The numbers of the program are binary64 values, so the binary rounding is modelled. A
  finite double is zero or a multiple of the quantum of its binade, below \<open>2^1024\<close>:
  the binade of \<open>x\<close> is the exponent \<open>e\<close> with \<open>2^e \<le> |x| < 2^(e+1)\<close>, and the
  quantum is \<open>2^(e-52)\<close>, or \<open>2^(-1074)\<close> for the subnormal numbers.
\<close>

definition binade :: "real \<Rightarrow> int" where
  "binade x = \<lfloor>log 2 \<bar>x\<bar>\<rfloor>"

definition quantum :: "real \<Rightarrow> real" where
  "quantum x = 2 powr of_int (max (binade x) (- 1022) - 52)"

definition double_limit :: real where
  "double_limit = 2 ^ 1024"

definition is_double :: "real \<Rightarrow> bool" where
  "is_double x =
     (x = 0 \<or> (of_int \<lfloor>x / quantum x\<rfloor> = x / quantum x \<and> \<bar>x\<bar> < double_limit))"

text \<open>Rounding to the nearest integer, a tie going to the even one.\<close>

definition round_even :: "real \<Rightarrow> int" where
  "round_even y =
     (let f = \<lfloor>y\<rfloor>; r = y - of_int f
      in if r < 1 / 2 then f else if 1 / 2 < r then f + 1 else if even f then f else f + 1)"

text \<open>
  The multiple of the quantum nearest to a real number, a tie going to the even
  multiple, with no bound on the exponent. Below \<open>2^1024\<close> this is the nearest double.
\<close>

definition to_double :: "real \<Rightarrow> real" where
  "to_double q = (if q = 0 then 0 else of_int (round_even (q / quantum q)) * quantum q)"

text \<open>
  The finite doubles form a type, and a number is a finite double, an infinity or NaN.
  The two zeros are one value here: the comparisons take them for equal, and a division
  by a zero, the one operation whose value depends on the sign of a zero, is given no
  value (see \<open>js_div\<close>).
\<close>

typedef double = "{x :: real. is_double x}"
  morphisms val double_of
  by (rule exI [of _ 0]) (simp add: is_double_def)

datatype number = Fin double | PosInf | NegInf | NaN

text \<open>
  The number that an arithmetic operation returns when its exact result is \<open>q\<close>, which
  is also the number that a numeric literal or a JSON number with the value \<open>q\<close>
  denotes: \<open>q\<close> rounded to the nearest double, and an infinity when the rounded value
  leaves the range.
\<close>

definition js_number :: "real \<Rightarrow> number" where
  "js_number q =
     (let d = to_double q
      in if double_limit \<le> d then PosInf
         else if d \<le> - double_limit then NegInf
         else Fin (double_of d))"

text \<open>The operators \<^verbatim>\<open>-\<close>, \<^verbatim>\<open>+\<close> and \<^verbatim>\<open>*\<close> on numbers.\<close>

fun js_sub :: "number \<Rightarrow> number \<Rightarrow> number" where
  "js_sub (Fin a) (Fin b) = js_number (val a - val b)"
| "js_sub NaN _ = NaN"
| "js_sub _ NaN = NaN"
| "js_sub PosInf PosInf = NaN"
| "js_sub NegInf NegInf = NaN"
| "js_sub PosInf _ = PosInf"
| "js_sub NegInf _ = NegInf"
| "js_sub (Fin a) PosInf = NegInf"
| "js_sub (Fin a) NegInf = PosInf"

fun js_add :: "number \<Rightarrow> number \<Rightarrow> number" where
  "js_add (Fin a) (Fin b) = js_number (val a + val b)"
| "js_add NaN _ = NaN"
| "js_add _ NaN = NaN"
| "js_add PosInf NegInf = NaN"
| "js_add NegInf PosInf = NaN"
| "js_add PosInf _ = PosInf"
| "js_add NegInf _ = NegInf"
| "js_add (Fin a) PosInf = PosInf"
| "js_add (Fin a) NegInf = NegInf"

fun js_mul :: "number \<Rightarrow> number \<Rightarrow> number" where
  "js_mul (Fin a) (Fin b) = js_number (val a * val b)"
| "js_mul NaN _ = NaN"
| "js_mul _ NaN = NaN"
| "js_mul (Fin a) PosInf = (if val a = 0 then NaN else if 0 < val a then PosInf else NegInf)"
| "js_mul (Fin a) NegInf = (if val a = 0 then NaN else if 0 < val a then NegInf else PosInf)"
| "js_mul PosInf (Fin b) = (if val b = 0 then NaN else if 0 < val b then PosInf else NegInf)"
| "js_mul NegInf (Fin b) = (if val b = 0 then NaN else if 0 < val b then NegInf else PosInf)"
| "js_mul PosInf PosInf = PosInf"
| "js_mul PosInf NegInf = NegInf"
| "js_mul NegInf PosInf = NegInf"
| "js_mul NegInf NegInf = PosInf"

text \<open>The number is a zero.\<close>

definition is_zero :: "number \<Rightarrow> bool" where
  "is_zero b = (case b of Fin d \<Rightarrow> val d = 0 | _ \<Rightarrow> False)"

text \<open>
  The operator \<^verbatim>\<open>/\<close>. A JavaScript division by a zero does not raise: it yields an
  infinity or NaN, according to the sign of the zero. \<open>js_div\<close> returns \<open>None\<close> when
  the denominator is a zero, and every function that evaluates a division propagates
  \<open>None\<close>, so that a division by zero shows in the result.
\<close>

fun js_div :: "number \<Rightarrow> number \<Rightarrow> number option" where
  "js_div (Fin a) (Fin b) = (if val b = 0 then None else Some (js_number (val a / val b)))"
| "js_div NaN (Fin b) = (if val b = 0 then None else Some NaN)"
| "js_div PosInf (Fin b) =
     (if val b = 0 then None else Some (if 0 < val b then PosInf else NegInf))"
| "js_div NegInf (Fin b) =
     (if val b = 0 then None else Some (if 0 < val b then NegInf else PosInf))"
| "js_div NaN _ = Some NaN"
| "js_div _ NaN = Some NaN"
| "js_div (Fin a) _ = Some (js_number 0)"
| "js_div _ _ = Some NaN"

text \<open>
  The operators \<^verbatim>\<open><\<close> and \<^verbatim>\<open>>\<close>: a comparison with NaN is false. A missing
  coordinate (\<open>undefined\<close>) is converted to NaN by the arithmetic and by the
  comparisons, so it is NaN here.
\<close>

fun js_lt :: "number \<Rightarrow> number \<Rightarrow> bool" where
  "js_lt (Fin a) (Fin b) = (val a < val b)"
| "js_lt NaN _ = False"
| "js_lt _ NaN = False"
| "js_lt _ NegInf = False"
| "js_lt PosInf _ = False"
| "js_lt NegInf _ = True"
| "js_lt (Fin a) PosInf = True"

definition js_gt :: "number \<Rightarrow> number \<Rightarrow> bool" where
  "js_gt a b = js_lt b a"

section \<open>Geometry filter: \<open>pointInPolygon\<close> (src/getNearbyPoi.js, lines 12-27)\<close>

text \<open>
  A point and a vertex are pairs of numbers, \<open>[x, y]\<close>.

  The body of the loop, for the query point and the vertices \<open>polygon[i]\<close>, \<open>polygon[j]\<close>:
  \<^verbatim>\<open>yi > y !== yj > y && x < ((xj - xi) * (y - yi)) / (yj - yi) + xi\<close>.
  The right operand of \<^verbatim>\<open>&&\<close> is evaluated only when the left one is true.
\<close>

type_synonym point = "number \<times> number"

definition intersect :: "point \<Rightarrow> point \<Rightarrow> point \<Rightarrow> bool option" where
  "intersect pt vi vj =
     (case pt of (x, y) \<Rightarrow> case vi of (xi, yi) \<Rightarrow> case vj of (xj, yj) \<Rightarrow>
        if js_gt yi y \<noteq> js_gt yj y
        then (case js_div (js_mul (js_sub xj xi) (js_sub y yi)) (js_sub yj yi) of
                None \<Rightarrow> None
              | Some q \<Rightarrow> Some (js_lt x (js_add q xi)))
        else Some False)"

text \<open>
  \<^verbatim>\<open>for (let i = 0, j = polygon.length - 1; i < polygon.length; j = i++)\<close>: the loop
  state is \<open>i\<close>, \<open>j\<close> and the flag \<open>inside\<close>. On an empty polygon \<open>j\<close> starts at -1 in
  the source and at 0 here, and is never read because the loop body does not run.
\<close>

function pip_loop :: "point \<Rightarrow> point list \<Rightarrow> nat \<Rightarrow> nat \<Rightarrow> bool \<Rightarrow> bool option" where
  "pip_loop pt polygon i j inside =
     (if i < length polygon
      then (case intersect pt (polygon ! i) (polygon ! j) of
              None \<Rightarrow> None
            | Some b \<Rightarrow> pip_loop pt polygon (i + 1) i (if b then \<not> inside else inside))
      else Some inside)"
  by pat_completeness auto
termination
  by (relation "measure (\<lambda>(pt, polygon, i, j, inside). length polygon - i)") auto

declare pip_loop.simps [simp del]

definition pointInPolygon :: "point \<Rightarrow> point list \<Rightarrow> bool option" where
  "pointInPolygon pt polygon = pip_loop pt polygon 0 (length polygon - 1) False"

subsection \<open>The even-odd rule, as the specification words it\<close>

text \<open>
  The edge that ends in vertex \<open>i\<close> starts in the vertex before it, and the edge that ends
  in the first vertex starts in the last one (the ring is closed implicitly). The edges
  of the ring with a given property are counted from the edge \<open>i\<close> on.
\<close>

definition prev_vertex :: "nat \<Rightarrow> nat \<Rightarrow> nat" where
  "prev_vertex n i = (i + n - 1) mod n"

definition ring_count_from :: "('a \<Rightarrow> 'a \<Rightarrow> bool) \<Rightarrow> 'a list \<Rightarrow> nat \<Rightarrow> nat" where
  "ring_count_from crossed ring i =
     length (filter (\<lambda>k. crossed (ring ! k) (ring ! prev_vertex (length ring) k))
               [i..<length ring])"

text \<open>
  The edges that the program takes for crossed by the ray from the point: those on
  which its test, computed with doubles, is true.
\<close>

definition crossings_from :: "point \<Rightarrow> point list \<Rightarrow> nat \<Rightarrow> nat" where
  "crossings_from pt polygon i =
     ring_count_from (\<lambda>vi vj. intersect pt vi vj = Some True) polygon i"

definition crossings :: "point \<Rightarrow> point list \<Rightarrow> nat" where
  "crossings pt polygon = crossings_from pt polygon 0"

text \<open>
  The edges that the ray crosses in the plane. The horizontal ray from the point towards
  greater \<open>x\<close> crosses the edge between \<open>vi\<close> and \<open>vj\<close>: the end points lie on different
  sides of the ray's line, and the point is to the left of the edge at the height of the
  ray. Here the coordinates are real numbers and the arithmetic is exact.
\<close>

definition ray_crosses :: "real \<times> real \<Rightarrow> real \<times> real \<Rightarrow> real \<times> real \<Rightarrow> bool" where
  "ray_crosses pt vi vj =
     (case pt of (x, y) \<Rightarrow> case vi of (xi, yi) \<Rightarrow> case vj of (xj, yj) \<Rightarrow>
        ((yi > y) \<noteq> (yj > y)) \<and> x < (xj - xi) * (y - yi) / (yj - yi) + xi)"

definition ray_crossings :: "real \<times> real \<Rightarrow> (real \<times> real) list \<Rightarrow> nat" where
  "ray_crossings pt polygon = ring_count_from (ray_crosses pt) polygon 0"

text \<open>
  The place of a point with finite coordinates in the plane, and the points whose
  coordinates are integers of a magnitude up to \<open>2^25\<close>. On these the arithmetic of the
  edge test is exact or rounds without passing the point.
\<close>

fun real_of :: "number \<Rightarrow> real" where
  "real_of (Fin a) = val a"
| "real_of _ = 0"

definition place :: "point \<Rightarrow> real \<times> real" where
  "place pt = (real_of (fst pt), real_of (snd pt))"

fun integral :: "number \<Rightarrow> bool" where
  "integral (Fin a) = (of_int \<lfloor>val a\<rfloor> = val a \<and> \<bar>val a\<bar> \<le> 2 ^ 25)"
| "integral _ = False"

definition on_grid :: "point \<Rightarrow> bool" where
  "on_grid pt = (integral (fst pt) \<and> integral (snd pt))"

text \<open>
  The numbers of a magnitude up to \<open>2^m\<close>, and the polygons whose coordinates are such
  numbers.
\<close>

fun fits :: "nat \<Rightarrow> number \<Rightarrow> bool" where
  "fits m (Fin a) = (\<bar>val a\<bar> \<le> 2 ^ m)"
| "fits m _ = False"

definition bounded_by :: "nat \<Rightarrow> point list \<Rightarrow> bool" where
  "bounded_by m polygon = list_all (\<lambda>v. fits m (fst v) \<and> fits m (snd v)) polygon"

definition square :: "point list" where
  "square = [(js_number 0, js_number 0), (js_number 0, js_number 4),
             (js_number 4, js_number 4), (js_number 4, js_number 0)]"

text \<open>The point lies strictly outside the bounding box of the vertices.\<close>

definition outside_bbox :: "point \<Rightarrow> point list \<Rightarrow> bool" where
  "outside_bbox pt polygon =
     (list_all (\<lambda>v. js_lt (fst pt) (fst v)) polygon \<or>
      list_all (\<lambda>v. js_lt (fst v) (fst pt)) polygon \<or>
      list_all (\<lambda>v. js_lt (snd pt) (snd v)) polygon \<or>
      list_all (\<lambda>v. js_lt (snd v) (snd pt)) polygon)"

text \<open>The point lies above or below every vertex.\<close>

definition outside_height :: "point \<Rightarrow> point list \<Rightarrow> bool" where
  "outside_height pt polygon =
     (list_all (\<lambda>v. js_lt (snd pt) (snd v)) polygon \<or>
      list_all (\<lambda>v. js_lt (snd v) (snd pt)) polygon)"

text \<open>
  The point lies far to the left or to the right of a polygon whose coordinates have a
  magnitude up to \<open>2^m\<close>: its first coordinate is beyond \<open>2^(m+2)\<close>.
\<close>

definition far_aside :: "nat \<Rightarrow> point \<Rightarrow> bool" where
  "far_aside m pt =
     (js_lt (fst pt) (js_number (- (2 ^ (m + 2)))) \<or> js_lt (js_number (2 ^ (m + 2))) (fst pt))"

subsection \<open>Particular polygons\<close>

text \<open>
  A triangle with coordinates around \<open>2^700\<close> and a point far to the left of it, and
  a triangle with small coordinates and a point just inside its right edge: the first
  coordinate of the point is the double nearest to a third.
\<close>

definition huge :: real where
  "huge = 2 ^ 700"

definition remote :: real where
  "remote = 2 ^ 1000"

definition spike :: "point list" where
  "spike = [(js_number huge, js_number (- huge)), (js_number 0, js_number huge),
            (js_number (2 * huge), js_number (- huge))]"

definition remote_point :: point where
  "remote_point = (js_number (- remote), js_number 0)"

definition third :: real where
  "third = 6004799503160661 / 2 ^ 54"

definition wedge :: "point list" where
  "wedge = [(js_number 1, js_number 3), (js_number 0, js_number 0),
            (js_number (- 1), js_number 3)]"

definition near_edge :: point where
  "near_edge = (js_number (1 / 3), js_number 1)"

section \<open>Classifier: \<open>sortByCategory\<close> (src/getNearbyPoi.js, lines 35-52)\<close>

text \<open>
  A feature of the provider's response: its position (\<open>geometry.coordinates\<close>), its
  category list (\<open>properties.categories\<close>, the provider's tags, to which the classifier
  appends its label) and an identifier standing for the rest of the feature.
\<close>

record poi =
  place_id :: string
  coordinates :: point
  categories :: "string list"

text \<open>The object \<open>sortedPOI\<close> with its five arrays.\<close>

record sorted_poi =
  supermarket :: "poi list"
  pharmacy :: "poi list"
  restaurant :: "poi list"
  fastfood :: "poi list"
  hotel :: "poi list"

text \<open>
  \<open>sortByCategory\<close> mutates the POI and one array of \<open>appendTo\<close>; the model returns
  both. The array receives a reference to the POI, so the element it holds carries the
  appended label.
\<close>

definition sortByCategory :: "poi \<Rightarrow> string list \<Rightarrow> sorted_poi \<Rightarrow> poi \<times> sorted_poi" where
  "sortByCategory p poiCategories appendTo =
     (if ''commercial.supermarket'' \<in> set poiCategories then
        (let p' = p\<lparr>categories := categories p @ [''supermarket'']\<rparr>
         in (p', appendTo\<lparr>supermarket := supermarket appendTo @ [p']\<rparr>))
      else if ''healthcare.pharmacy'' \<in> set poiCategories then
        (let p' = p\<lparr>categories := categories p @ [''pharmacy'']\<rparr>
         in (p', appendTo\<lparr>pharmacy := pharmacy appendTo @ [p']\<rparr>))
      else if ''catering.restaurant'' \<in> set poiCategories then
        (let p' = p\<lparr>categories := categories p @ [''restaurant'']\<rparr>
         in (p', appendTo\<lparr>restaurant := restaurant appendTo @ [p']\<rparr>))
      else if ''catering.fast_food'' \<in> set poiCategories then
        (let p' = p\<lparr>categories := categories p @ [''fastfood'']\<rparr>
         in (p', appendTo\<lparr>fastfood := fastfood appendTo @ [p']\<rparr>))
      else if ''accommodation.hotel'' \<in> set poiCategories then
        (let p' = p\<lparr>categories := categories p @ [''hotel'']\<rparr>
         in (p', appendTo\<lparr>hotel := hotel appendTo @ [p']\<rparr>))
      else (p, appendTo))"

subsection \<open>The classification rule, as the specification words it\<close>

text \<open>The ordered rule table: provider tag and canonical label, highest priority first.\<close>

definition rules :: "(string \<times> string) list" where
  "rules = [(''commercial.supermarket'', ''supermarket''),
            (''healthcare.pharmacy'', ''pharmacy''),
            (''catering.restaurant'', ''restaurant''),
            (''catering.fast_food'', ''fastfood''),
            (''accommodation.hotel'', ''hotel'')]"

definition first_label :: "string list \<Rightarrow> string option" where
  "first_label tags = map_option snd (find (\<lambda>r. fst r \<in> set tags) rules)"

definition bucket :: "string \<Rightarrow> sorted_poi \<Rightarrow> poi list" where
  "bucket l a =
     (if l = ''supermarket'' then supermarket a
      else if l = ''pharmacy'' then pharmacy a
      else if l = ''restaurant'' then restaurant a
      else if l = ''fastfood'' then fastfood a
      else if l = ''hotel'' then hotel a
      else [])"

definition labels :: "string list" where
  "labels = map snd rules"

definition no_poi :: sorted_poi where
  "no_poi = \<lparr>supermarket = [], pharmacy = [], restaurant = [], fastfood = [], hotel = []\<rparr>"

definition add_label :: "string \<Rightarrow> poi \<Rightarrow> poi" where
  "add_label l p = p\<lparr>categories := categories p @ [l]\<rparr>"

section \<open>Lookup orchestrator: \<open>getNearbyPlaces\<close> (src/getNearbyPoi.js, lines 60-112)\<close>

text \<open>
  JavaScript values, as far as the route inspects them: the \<open>error\<close> member of what
  \<open>getNearbyPlaces\<close> returns is tested for truthiness and copied into the response.
\<close>

datatype jsval =
  JNull
  | JBool bool
  | JNum real
  | JStr string
  | JArr "jsval list"
  | JObj "(string \<times> jsval) list"

fun truthy :: "jsval \<Rightarrow> bool" where
  "truthy JNull = False"
| "truthy (JBool b) = b"
| "truthy (JNum n) = (n \<noteq> 0)"
| "truthy (JStr s) = (s \<noteq> [])"
| "truthy (JArr _) = True"
| "truthy (JObj _) = True"

text \<open>
  The body of the POI provider's response (\<open>geoApifyPOIRes.data\<close>): its feature list,
  \<open>None\<close> when the member \<open>features\<close> is absent (or falsy), and its other members.
\<close>

record places_data =
  features :: "poi list option"
  members :: "(string \<times> jsval) list"

text \<open>
  What the two \<open>axios.get\<close> calls come back with. A call that fails (no connection, a
  status outside 2xx) rejects with an error, given here by its text.

  For the isochrone call, \<open>IsoFailure\<close> covers everything that the \<open>try\<close> block
  catches: a rejected call, and a body in which \<open>features[0].geometry.coordinates\<close>
  cannot be read. Otherwise the block assigns \<open>coordinates[0]\<close> to
  \<open>IsochronePolygon\<close>, whatever it is: \<open>IsoBody\<close> carries this value, \<open>None\<close>
  when it is \<open>undefined\<close> or \<open>null\<close> (the array \<open>coordinates\<close> is empty),
  and the ring when it is an array of positions.
\<close>

datatype places_response = PlacesFailure string | PlacesData places_data

datatype isochrone_response = IsoFailure string | IsoBody "point list option"

text \<open>The requests sent upstream, by their centre (longitude, latitude).\<close>

datatype http_request = PlacesRequest real real | IsochroneRequest real real

text \<open>
  What \<open>getNearbyPlaces\<close> returns: the categorized mapping, the provider's body as it
  came, or the object \<open>{error: ...}\<close> of the isochrone failure.
\<close>

datatype lookup_result =
  Sorted sorted_poi
  | ProviderData places_data
  | ErrorObject string

definition categorize :: "poi list \<Rightarrow> sorted_poi \<Rightarrow> sorted_poi" where
  "categorize filteredPOI sortedPOI =
     fold (\<lambda>p acc. snd (sortByCategory p (categories p) acc)) filteredPOI sortedPOI"

text \<open>
  \<open>Array.prototype.filter\<close> with a callback that may throw: the first exception ends
  the filtering.
\<close>

fun filter_throwing :: "('a \<Rightarrow> string + bool) \<Rightarrow> 'a list \<Rightarrow> string + 'a list" where
  "filter_throwing f [] = Inr []"
| "filter_throwing f (x # xs) =
     (case f x of
        Inl err \<Rightarrow> Inl err
      | Inr keep \<Rightarrow>
          (case filter_throwing f xs of
             Inl err \<Rightarrow> Inl err
           | Inr ys \<Rightarrow> Inr (if keep then x # ys else ys)))"

text \<open>
  The call \<open>pointInPolygon(poi.geometry.coordinates, IsochronePolygon)\<close> of the
  callback (line 104), which is outside the \<open>try\<close> block: reading \<open>polygon.length\<close>
  throws a \<open>TypeError\<close> when \<open>IsochronePolygon\<close> is \<open>undefined\<close> or \<open>null\<close>.
\<close>

definition inside_isochrone :: "point list option \<Rightarrow> poi \<Rightarrow> string + bool" where
  "inside_isochrone IsochronePolygon p =
     (case IsochronePolygon of
        None \<Rightarrow> Inl ''TypeError: Cannot read properties of undefined (reading length)''
      | Some polygon \<Rightarrow> Inr (pointInPolygon (coordinates p) polygon = Some True))"

text \<open>
  The result is \<open>Inl\<close> when the function throws (the first \<open>axios.get\<close> and the
  filtering are outside the \<open>try\<close> block), together with the requests that were sent.
\<close>

definition getNearbyPlaces ::
  "real \<Rightarrow> real \<Rightarrow> places_response \<Rightarrow> isochrone_response
     \<Rightarrow> (string + lookup_result) \<times> http_request list" where
  "getNearbyPlaces lat lon geoApifyPOIRes mapboxIsochroneRes =
     (case geoApifyPOIRes of
        PlacesFailure err \<Rightarrow> (Inl err, [PlacesRequest lon lat])
      | PlacesData d \<Rightarrow>
          (case features d of
             None \<Rightarrow> (Inr (ProviderData d), [PlacesRequest lon lat])
           | Some fs \<Rightarrow>
               (case mapboxIsochroneRes of
                  IsoFailure err \<Rightarrow>
                    (Inr (ErrorObject (''Error getting mb isochrone:'' @ err)),
                     [PlacesRequest lon lat, IsochroneRequest lon lat])
                | IsoBody IsochronePolygon \<Rightarrow>
                    (case filter_throwing (inside_isochrone IsochronePolygon) fs of
                       Inl err \<Rightarrow>
                         (Inl err, [PlacesRequest lon lat, IsochroneRequest lon lat])
                     | Inr filteredPOI \<Rightarrow>
                         (Inr (Sorted (categorize filteredPOI no_poi)),
                          [PlacesRequest lon lat, IsochroneRequest lon lat])))))"

text \<open>
  The complete categorized mapping of a feature list, as the specification words it: a
  bucket holds, in the provider's order and with the label appended, the features
  whose first matching rule names the bucket and which \<open>pointInPolygon\<close> finds
  inside the polygon.
\<close>

definition inside_polygon :: "point list \<Rightarrow> poi \<Rightarrow> bool" where
  "inside_polygon polygon p = odd (crossings (coordinates p) polygon)"

definition expected_bucket :: "string \<Rightarrow> poi list \<Rightarrow> point list \<Rightarrow> poi list" where
  "expected_bucket l fs polygon =
     map (add_label l)
       (filter (\<lambda>p. inside_polygon polygon p \<and> first_label (categories p) = Some l) fs)"

text \<open>The categorized mapping in which every bucket is complete.\<close>

definition complete_mapping :: "poi list \<Rightarrow> point list \<Rightarrow> sorted_poi" where
  "complete_mapping fs polygon =
     \<lparr>supermarket = expected_bucket ''supermarket'' fs polygon,
      pharmacy = expected_bucket ''pharmacy'' fs polygon,
      restaurant = expected_bucket ''restaurant'' fs polygon,
      fastfood = expected_bucket ''fastfood'' fs polygon,
      hotel = expected_bucket ''hotel'' fs polygon\<rparr>"

section \<open>The Redis store\<close>

text \<open>
  Redis holds two families of keys, \<open>unique-requests-<ip>\<close> (a counter) and
  \<open>nearby-<lat>-<lon>\<close> (a serialized response). The prefixes differ, so the families
  are kept in two maps; a key of the first is the client address, a key of the second
  the pair of rounded coordinates. Every value comes with the time at which it expires,
  if it has one. Time is in milliseconds, and every command is given the instant at
  which it reaches Redis. The commands themselves are assumed not to fail, but for
  \<open>INCR\<close> at the end of the 64-bit range.
\<close>

type_synonym 'v expiring = "'v \<times> nat option"

definition live :: "nat \<Rightarrow> 'v expiring \<Rightarrow> bool" where
  "live now entry = (case snd entry of None \<Rightarrow> True | Some t \<Rightarrow> now < t)"

text \<open>\<open>GET key\<close>: the value, unless the key is absent or has expired.\<close>

definition redis_get :: "('k \<rightharpoonup> 'v expiring) \<Rightarrow> nat \<Rightarrow> 'k \<Rightarrow> 'v option" where
  "redis_get store now key =
     (case store key of
        None \<Rightarrow> None
      | Some entry \<Rightarrow> if live now entry then Some (fst entry) else None)"

text \<open>\<open>SET key value EX seconds\<close>.\<close>

definition redis_set_ex ::
  "('k \<rightharpoonup> 'v expiring) \<Rightarrow> nat \<Rightarrow> 'k \<Rightarrow> 'v \<Rightarrow> nat \<Rightarrow> ('k \<rightharpoonup> 'v expiring)" where
  "redis_set_ex store now key v seconds = store(key \<mapsto> (v, Some (now + seconds * 1000)))"

text \<open>
  \<open>INCR key\<close>: a live value is incremented and keeps its expiry; an absent or expired
  key is created with the value 1 and no expiry. Redis refuses to increment the greatest
  64-bit integer.
\<close>

definition int64_max :: int where
  "int64_max = 2 ^ 63 - 1"

definition redis_incr ::
  "('k \<rightharpoonup> int expiring) \<Rightarrow> nat \<Rightarrow> 'k \<Rightarrow> string + ('k \<rightharpoonup> int expiring)" where
  "redis_incr store now key =
     (case store key of
        None \<Rightarrow> Inr (store(key \<mapsto> (1, None)))
      | Some entry \<Rightarrow>
          if live now entry
          then (if fst entry = int64_max
                then Inl ''ERR increment or decrement would overflow''
                else Inr (store(key \<mapsto> (fst entry + 1, snd entry))))
          else Inr (store(key \<mapsto> (1, None))))"

section \<open>Quota guard (lines 116-136)\<close>

text \<open>
  \<open>currentCount\<close> is the string of an integer, which is truthy whenever the key is
  there, and \<open>parseInt\<close> reads the integer back.
\<close>

definition checkUniqueRequestLimit :: "(string \<rightharpoonup> int expiring) \<Rightarrow> nat \<Rightarrow> string \<Rightarrow> bool" where
  "checkUniqueRequestLimit store now ip =
     (case redis_get store now ip of
        None \<Rightarrow> True
      | Some currentCount \<Rightarrow> if currentCount \<ge> 5 then False else True)"

text \<open>
  \<open>incrementUniqueRequestCount\<close> awaits two commands, \<open>GET\<close> and then \<open>INCR\<close>
  or \<open>SET\<close>: the first reaches Redis at the instant \<open>now\<close>, the second at the
  instant \<open>later\<close>.
\<close>

definition incrementUniqueRequestCount ::
  "(string \<rightharpoonup> int expiring) \<Rightarrow> nat \<Rightarrow> nat \<Rightarrow> string
     \<Rightarrow> string + (string \<rightharpoonup> int expiring)" where
  "incrementUniqueRequestCount store now later ip =
     (case redis_get store now ip of
        Some currentCount \<Rightarrow> redis_incr store later ip
      | None \<Rightarrow> Inr (redis_set_ex store later ip 1 (60 * 60)))"

section \<open>Coordinate quantization: \<open>roundCord\<close> (lines 138-140)\<close>

text \<open>
  \<open>roundCord\<close> goes from a double to a decimal string and back. The coordinate is
  given by the real number that the double denotes. \<open>parseFloat\<close> finds the double
  nearest to the number that its string denotes; a number too large for a double would
  be read as \<open>Infinity\<close>, and the strings that \<open>toFixed\<close> makes of a finite
  double stay in range.
\<close>

text \<open>
  \<open>coord.toFixed(precision)\<close> is the decimal string of \<open>n / 10^precision\<close> for the
  integer \<open>n\<close> that makes this closest to the magnitude of the number, the larger \<open>n\<close>
  of two, with the sign of the number; from \<open>10^21\<close> on it is the number's own string,
  which reads back as the number. The model gives the value that the string denotes.
  The route calls \<open>roundCord\<close> with the precision 3.
\<close>

definition toFixed :: "real \<Rightarrow> nat \<Rightarrow> real" where
  "toFixed x f =
     (if \<bar>x\<bar> \<ge> 10 ^ 21 then x
      else sgn x * (of_int \<lfloor>\<bar>x\<bar> * 10 ^ f + 1 / 2\<rfloor> / 10 ^ f))"

definition parseFloat :: "real \<Rightarrow> real" where
  "parseFloat v = to_double v"

definition roundCord :: "real \<Rightarrow> nat \<Rightarrow> real" where
  "roundCord coord precision = parseFloat (toFixed coord precision)"

text \<open>The key \<open>nearby-${roundedLat}-${roundedLon}\<close>, by the two numbers in it.\<close>

definition cacheKey :: "real \<Rightarrow> real \<Rightarrow> real \<times> real" where
  "cacheKey lat lon = (roundCord lat 3, roundCord lon 3)"

section \<open>The route \<open>/nearby-places\<close> (lines 143-236)\<close>

text \<open>The object \<open>nearbyPlaces\<close>, and the document stored from it in MongoDB.\<close>

record envelope =
  forCoordinates :: "real \<times> real"
  requestedBy :: string
  POIbyCategory :: lookup_result

record document = envelope +
  generalCoordinates :: "real \<times> real"
  createdAt :: nat
  expiresAt :: nat

text \<open>What a cache key holds, and what a response carries.\<close>

datatype payload = Envelope envelope | Document document

datatype body = Json payload | ErrorBody jsval "string option"

record response =
  status :: nat
  body :: body

text \<open>
  The state the route works on: the two key families of Redis, the collection
  \<open>savedPlaces\<close> of MongoDB in insertion order, and the requests sent upstream so far.
\<close>

record state =
  counters :: "string \<rightharpoonup> int expiring"
  cache :: "real \<times> real \<rightharpoonup> payload expiring"
  savedPlaces :: "document list"
  upstream :: "http_request list"

text \<open>
  One request with what its environment does while it is served: the time at which it
  arrives, the time that passes between the two commands of
  \<open>incrementUniqueRequestCount\<close>, whether MongoDB fails at the cache check and at the
  save, and what the two providers answer. The commands up to the \<open>GET\<close> of
  \<open>incrementUniqueRequestCount\<close> are taken to reach Redis at the instant \<open>now\<close>,
  and the later ones at the instant \<open>now + writeDelay\<close>.
\<close>

record request =
  now :: nat
  writeDelay :: nat
  ip :: string
  lat :: real
  lon :: real
  mongoFindFails :: bool
  mongoInsertFails :: bool
  placesRes :: places_response
  isoRes :: isochrone_response

text \<open>
  \<open>findOne({generalCoordinates: [roundedLat, roundedLon]})\<close> and \<open>insertOne\<close>, each
  after \<open>connectToDatabase()\<close>: \<open>Inl\<close> is the error thrown when MongoDB fails.
\<close>

definition findOne :: "document list \<Rightarrow> real \<times> real \<Rightarrow> document option" where
  "findOne collection key = find (\<lambda>d. generalCoordinates d = key) collection"

definition mongo_find :: "request \<Rightarrow> state \<Rightarrow> string + document option" where
  "mongo_find r s =
     (if mongoFindFails r then Inl ''MongoError''
      else Inr (findOne (savedPlaces s) (cacheKey (lat r) (lon r))))"

definition mongo_insert :: "request \<Rightarrow> document \<Rightarrow> state \<Rightarrow> string + state" where
  "mongo_insert r d s =
     (if mongoInsertFails r then Inl ''MongoError''
      else Inr (s\<lparr>savedPlaces := savedPlaces s @ [d]\<rparr>))"

text \<open>The member \<open>error\<close> of the returned object, when it is there and truthy.\<close>

definition error_member :: "lookup_result \<Rightarrow> jsval option" where
  "error_member sortedPoi =
     (case sortedPoi of
        Sorted _ \<Rightarrow> None
      | ErrorObject msg \<Rightarrow> if truthy (JStr msg) then Some (JStr msg) else None
      | ProviderData d \<Rightarrow>
          (case map_of (members d) ''error'' of
             None \<Rightarrow> None
           | Some v \<Rightarrow> if truthy v then Some v else None))"

definition quota_exceeded :: response where
  "quota_exceeded =
     \<lparr>status = 429,
      body = ErrorBody
        (JStr ''Too many unique location requests. Maximum 5 new locations per hour.'')
        (Some ''UNIQUE_REQUESTS_LIMIT_EXCEEDED'')\<rparr>"

definition internal_error :: response where
  "internal_error = \<lparr>status = 500, body = ErrorBody (JStr ''Internal server error'') None\<rparr>"

text \<open>The second \<open>try\<close> block of the route (lines 181-235), entered on a miss of both tiers.\<close>

definition unique_lookup :: "request \<Rightarrow> state \<Rightarrow> response \<times> state" where
  "unique_lookup r s =
     (if \<not> checkUniqueRequestLimit (counters s) (now r) (ip r) then (quota_exceeded, s)
      else
        case incrementUniqueRequestCount (counters s) (now r) (now r + writeDelay r) (ip r) of
          Inl err \<Rightarrow> (internal_error, s)
        | Inr counters' \<Rightarrow>
            (let (res, sent) = getNearbyPlaces (lat r) (lon r) (placesRes r) (isoRes r);
                 s1 = s\<lparr>counters := counters', upstream := upstream s @ sent\<rparr>
             in case res of
                  Inl err \<Rightarrow> (internal_error, s1)
                | Inr sortedPoi \<Rightarrow>
                    (case error_member sortedPoi of
                       Some err \<Rightarrow> (\<lparr>status = 500, body = ErrorBody err (Some ''API_ERROR'')\<rparr>, s1)
                     | None \<Rightarrow>
                         (let nearbyPlaces =
                                \<lparr>forCoordinates = (lat r, lon r), requestedBy = ip r,
                                 POIbyCategory = sortedPoi\<rparr>;
                              s2 = s1\<lparr>cache :=
                                     redis_set_ex (cache s1) (now r + writeDelay r)
                                       (cacheKey (lat r) (lon r))
                                       (Envelope nearbyPlaces) (60 * 60 * 6)\<rparr>;
                              generalizedPlaces =
                                \<lparr>forCoordinates = (lat r, lon r), requestedBy = ip r,
                                 POIbyCategory = sortedPoi,
                                 generalCoordinates = cacheKey (lat r) (lon r),
                                 createdAt = now r + writeDelay r,
                                 expiresAt = now r + writeDelay r + 4 * 24 * 60 * 60 * 1000\<rparr>;
                              s3 = (case mongo_insert r generalizedPlaces s2 of
                                      Inr saved \<Rightarrow> saved
                                    | Inl mongoError \<Rightarrow> s2)
                          in (\<lparr>status = 200, body = Json (Envelope nearbyPlaces)\<rparr>, s3)))))"

text \<open>
  The route: the Redis check, the MongoDB check in its own \<open>try\<close> block, whose
  \<open>catch\<close> only logs, and the second \<open>try\<close> block. The source file holds a
  second, shorter copy of the server after this one (from line 241 on), in which the two
  MongoDB accesses have no \<open>try\<close> block of their own and the code of the provider
  error is \<open>API_CREDITS_EXCEEDED\<close>; the model is of the first copy.
\<close>

definition nearby_places :: "request \<Rightarrow> state \<Rightarrow> response \<times> state" where
  "nearby_places r s =
     (case redis_get (cache s) (now r) (cacheKey (lat r) (lon r)) of
        Some cachedData \<Rightarrow> (\<lparr>status = 200, body = Json cachedData\<rparr>, s)
      | None \<Rightarrow>
          (case mongo_find r s of
             Inr (Some mdbData) \<Rightarrow>
               (\<lparr>status = 200, body = Json (Document mdbData)\<rparr>,
                s\<lparr>cache := redis_set_ex (cache s) (now r) (cacheKey (lat r) (lon r))
                              (Document mdbData) (60 * 60 * 6)\<rparr>)
           | Inr None \<Rightarrow> unique_lookup r s
           | Inl mongoError \<Rightarrow> unique_lookup r s))"

text \<open>Requests served one after the other.\<close>

fun serve :: "request list \<Rightarrow> state \<Rightarrow> response list \<times> state" where
  "serve [] s = ([], s)"
| "serve (r # rs) s =
     (let (res, s') = nearby_places r s; (ress, s'') = serve rs s' in (res # ress, s''))"

text \<open>The request misses both cache tiers in the state it meets.\<close>

definition cache_miss :: "request \<Rightarrow> state \<Rightarrow> bool" where
  "cache_miss r s =
     (redis_get (cache s) (now r) (cacheKey (lat r) (lon r)) = None \<and>
      (case mongo_find r s of Inr (Some mdbData) \<Rightarrow> False | _ \<Rightarrow> True))"

fun all_miss :: "request list \<Rightarrow> state \<Rightarrow> bool" where
  "all_miss [] s = True"
| "all_miss (r # rs) s = (cache_miss r s \<and> all_miss rs (snd (nearby_places r s)))"

text \<open>
  The number of requests of the client \<open>k\<close> in a run that miss both tiers and pass the
  quota check.
\<close>

fun admitted_by :: "string \<Rightarrow> request list \<Rightarrow> state \<Rightarrow> nat" where
  "admitted_by k [] s = 0"
| "admitted_by k (r # rs) s =
     (if ip r = k \<and> cache_miss r s \<and> fst (nearby_places r s) \<noteq> quota_exceeded then 1 else 0)
       + admitted_by k rs (snd (nearby_places r s))"

definition init :: state where
  "init = \<lparr>counters = Map.empty, cache = Map.empty, savedPlaces = [], upstream = []\<rparr>"

section \<open>Concrete inputs\<close>

text \<open>A feature with two of the five tags, the lower priority first.\<close>

definition corner_shop :: poi where
  "corner_shop = \<lparr>place_id = ''51a1'', coordinates = (js_number (- 75), js_number 40),
     categories = [''catering.restaurant'', ''commercial.supermarket'']\<rparr>"

text \<open>
  A lookup at the time \<open>t\<close> for the latitude \<open>x\<close>, answered by the providers with an
  empty feature list and an empty polygon, so that it succeeds with empty buckets. Its
  commands reach Redis without delay.
\<close>

definition visit :: "nat \<Rightarrow> real \<Rightarrow> request" where
  "visit t x =
     \<lparr>now = t, writeDelay = 0, ip = ''203.0.113.7'', lat = x, lon = - 75,
      mongoFindFails = False, mongoInsertFails = False,
      placesRes = PlacesData \<lparr>features = Some [], members = []\<rparr>,
      isoRes = IsoBody (Some [])\<rparr>"

text \<open>The state after one such lookup at time 0, and six lookups of new places around
  the end of the hour that the first one opened.\<close>

definition late_state :: state where
  "late_state = snd (nearby_places (visit 0 1) init)"

definition six_visits :: "request list" where
  "six_visits = [visit 3599000 2, visit 3600000 3, visit 3600001 4, visit 3600002 5,
                 visit 3600003 6, visit 3600004 7]"

text \<open>Five lookups of new places within six seconds after the first, and the state after
  the six.\<close>

definition five_more :: "request list" where
  "five_more = [visit 1000 2, visit 2000 3, visit 3000 4, visit 4000 5, visit 5000 6]"

definition spent_state :: state where
  "spent_state = snd (serve (visit 0 1 # five_more) init)"

text \<open>The document that the first lookup stored.\<close>

definition stored_doc :: document where
  "stored_doc = \<lparr>forCoordinates = (1, - 75), requestedBy = ''203.0.113.7'',
                 POIbyCategory = Sorted no_poi, generalCoordinates = (1, - 75),
                 createdAt = 0, expiresAt = 345600000\<rparr>"

text \<open>A body of the POI provider with neither \<open>features\<close> nor \<open>error\<close>.\<close>

definition exhausted_body :: places_data where
  "exhausted_body = \<lparr>features = None, members = [(''message'', JStr ''Quota exceeded'')]\<rparr>"

definition exhausted_visit :: request where
  "exhausted_visit = (visit 0 40)\<lparr>placesRes := PlacesData exhausted_body\<rparr>"

text \<open>The same lookup when the provider answers with the status 429 and \<open>axios\<close> rejects.\<close>

definition rejected_visit :: request where
  "rejected_visit =
     (visit 0 40)\<lparr>placesRes := PlacesFailure ''Request failed with status code 429''\<rparr>"

text \<open>Lookups during which MongoDB fails, and a provider body with one feature.\<close>

definition failed_find :: request where
  "failed_find = (visit 21600000 1)\<lparr>mongoFindFails := True\<rparr>"

definition failed_save :: request where
  "failed_save = (visit 0 1)\<lparr>mongoInsertFails := True\<rparr>"

definition one_feature :: places_data where
  "one_feature = \<lparr>features = Some [corner_shop], members = []\<rparr>"

text \<open>
  A lookup that is answered with one feature by the POI provider, and by the isochrone
  provider with a body whose first feature has no ring (\<open>coordinates\<close> is empty);
  the same lookup when the isochrone call fails; and a ring around the feature.
\<close>

definition ringless_visit :: request where
  "ringless_visit = (visit 0 40)\<lparr>placesRes := PlacesData one_feature, isoRes := IsoBody None\<rparr>"

definition timeout_visit :: request where
  "timeout_visit =
     (visit 0 40)\<lparr>placesRes := PlacesData one_feature, isoRes := IsoFailure ''timeout''\<rparr>"

definition around_shop :: "point list" where
  "around_shop = [(js_number (- 76), js_number 39), (js_number (- 76), js_number 41),
                  (js_number (- 74), js_number 41), (js_number (- 74), js_number 39)]"

text \<open>
  A lookup of a new place that arrives one millisecond before the counter of the first
  lookup expires, and whose increment reaches Redis one millisecond after; four lookups
  of new places after it; and the state after the five.
\<close>

definition racing_visit :: request where
  "racing_visit = (visit 3599999 2)\<lparr>writeDelay := 2\<rparr>"

definition four_more :: "request list" where
  "four_more = [visit 3601000 3, visit 3602000 4, visit 3603000 5, visit 3604000 6]"

definition stuck_state :: state where
  "stuck_state = snd (serve (racing_visit # four_more) late_state)"

section \<open>Properties of the numbers\<close>

subsection \<open>Binades and rounding to a double\<close>

lemma is_double_alt:
  "is_double x = (x = 0 \<or> (x / quantum x \<in> \<int> \<and> \<bar>x\<bar> < double_limit))"
proof -
  have "of_int \<lfloor>y\<rfloor> = y \<longleftrightarrow> y \<in> \<int>" for y :: real
    by (metis Ints_of_int of_int_floor)
  then show ?thesis by (simp add: is_double_def)
qed

lemma binade_bounds:
  assumes "x \<noteq> 0"
  shows "2 powr of_int (binade x) \<le> \<bar>x\<bar>" "\<bar>x\<bar> < 2 powr of_int (binade x + 1)"
  using assms floor_log_eq_powr_iff [of "\<bar>x\<bar>" 2 "binade x"]
  by (simp_all add: binade_def)

lemma binade_eqI:
  assumes "2 powr of_int k \<le> \<bar>x\<bar>" "\<bar>x\<bar> < 2 powr of_int (k + 1)"
  shows "binade x = k"
proof -
  have "(0 :: real) < 2 powr of_int k" by simp
  with assms(1) have "0 < \<bar>x\<bar>" by linarith
  then show ?thesis
    using assms floor_log_eq_powr_iff [of "\<bar>x\<bar>" 2 k] by (simp add: binade_def)
qed

lemma binade_minus [simp]: "binade (- x) = binade x"
  by (simp add: binade_def)

lemma binade_abs [simp]: "binade \<bar>x\<bar> = binade x"
  by (simp add: binade_def)

lemma quantum_pos [simp]: "0 < quantum x"
  by (simp add: quantum_def)

lemma quantum_nonzero [simp]: "quantum x \<noteq> 0"
  by (simp add: quantum_def)

lemma quantum_nonneg [simp]: "0 \<le> quantum x"
  by (simp add: quantum_def)

lemma abs_quantum [simp]: "\<bar>quantum x\<bar> = quantum x"
  by (simp add: quantum_def)

lemma quantum_minus [simp]: "quantum (- x) = quantum x"
  by (simp add: quantum_def)

lemma quantum_abs [simp]: "quantum \<bar>x\<bar> = quantum x"
  by (simp add: quantum_def)

lemma round_even_error: "\<bar>of_int (round_even y) - y\<bar> \<le> 1 / 2"
  unfolding round_even_def Let_def by (auto; linarith)

lemma round_even_near:
  assumes "\<bar>y - of_int k\<bar> < 1 / 2"
  shows "round_even y = k"
proof -
  have "\<bar>of_int (round_even y) - of_int k :: real\<bar> < 1"
    using round_even_error [of y] assms by linarith
  then have "\<bar>round_even y - k\<bar> < 1"
    by (metis of_int_diff of_int_abs of_int_less_1_iff)
  then show ?thesis by simp
qed

lemma round_even_of_int [simp]: "round_even (of_int k) = k"
  by (rule round_even_near) simp

lemma round_even_minus: "round_even (- y) = - round_even y"
proof (cases "y \<in> \<int>")
  case True
  then obtain k where "y = of_int k" by (auto elim: Ints_cases)
  then show ?thesis
    by (metis of_int_minus round_even_of_int)
next
  case False
  then have "y \<noteq> of_int \<lfloor>y\<rfloor>"
    by (metis Ints_of_int)
  then have f: "\<lfloor>- y\<rfloor> = - \<lfloor>y\<rfloor> - 1"
    by (simp add: floor_minus ceiling_altdef)
  have fr: "y - of_int \<lfloor>y\<rfloor> > 0"
    using False by (metis Ints_of_int diff_gt_0_iff_gt of_int_floor_le order_less_le)
  show ?thesis
    unfolding round_even_def Let_def f
    using fr by (auto simp: algebra_simps)
qed

lemma to_double_minus: "to_double (- q) = - to_double q"
  by (simp add: to_double_def round_even_minus)

lemma to_double_error: "\<bar>to_double q - q\<bar> \<le> quantum q / 2"
proof (cases "q = 0")
  case True
  then show ?thesis by (simp add: to_double_def)
next
  case False
  have "\<bar>of_int (round_even (q / quantum q)) - q / quantum q\<bar> * quantum q \<le> 1 / 2 * quantum q"
    by (intro mult_right_mono round_even_error) simp
  moreover have "\<bar>of_int (round_even (q / quantum q)) - q / quantum q\<bar> * quantum q
      = \<bar>of_int (round_even (q / quantum q)) * quantum q - q\<bar>"
  proof -
    have "\<bar>of_int (round_even (q / quantum q)) - q / quantum q\<bar> * quantum q
        = \<bar>(of_int (round_even (q / quantum q)) - q / quantum q) * quantum q\<bar>"
      by (simp add: abs_mult)
    also have "(of_int (round_even (q / quantum q)) - q / quantum q) * quantum q
        = of_int (round_even (q / quantum q)) * quantum q - q"
      by (simp add: left_diff_distrib)
    finally show ?thesis .
  qed
  ultimately show ?thesis using False by (simp add: to_double_def)
qed

lemma to_double_near:
  assumes "q \<noteq> 0" "d / quantum q \<in> \<int>" "\<bar>d - q\<bar> < quantum q / 2"
  shows "to_double q = d"
proof -
  obtain k where k: "d / quantum q = of_int k" using assms(2) by (auto elim: Ints_cases)
  then have d: "d = of_int k * quantum q" by (simp add: nonzero_divide_eq_eq)
  have "\<bar>q / quantum q - of_int k\<bar> = \<bar>q - d\<bar> / quantum q"
    by (simp add: d field_simps abs_mult abs_divide)
  also have "\<dots> < 1 / 2"
    using assms(3) by (simp add: field_simps abs_minus_commute)
  finally have "round_even (q / quantum q) = k" by (rule round_even_near)
  then show ?thesis using assms(1) by (simp add: to_double_def d)
qed

lemma to_double_id:
  assumes "is_double x"
  shows "to_double x = x"
proof (cases "x = 0")
  case True
  then show ?thesis by (simp add: to_double_def)
next
  case False
  with assms have "x / quantum x \<in> \<int>" by (simp add: is_double_alt)
  with False show ?thesis by (intro to_double_near) simp_all
qed

lemma two_powr_int: "0 \<le> k \<Longrightarrow> 2 powr of_int k = (2 :: real) ^ nat k"
  by (simp add: powr_real_of_int)

lemma quantum_small:
  assumes "binade q \<le> 42"
  shows "quantum q \<le> 1 / 1024"
proof -
  have "quantum q \<le> 2 powr of_int (- 10)"
    unfolding quantum_def using assms by (intro powr_mono) auto
  also have "\<dots> = 1 / 1024"
    by (simp add: powr_minus_divide)
  finally show ?thesis .
qed

lemma quantum_large:
  assumes "43 \<le> binade q"
  shows "1 / 512 \<le> quantum q"
proof -
  have "2 powr of_int (- 9) \<le> quantum q"
    unfolding quantum_def using assms by (intro powr_mono) auto
  moreover have "2 powr of_int (- 9) = (1 / 512 :: real)"
    by (simp add: powr_minus_divide)
  ultimately show ?thesis by simp
qed

lemma quantum_normal:
  assumes "- 1022 \<le> binade q"
  shows "quantum q = 2 powr of_int (binade q - 52)"
  using assms by (simp add: quantum_def max_def)

lemma binade_zero: "binade 0 = 0"
  by (simp add: binade_def log_def)

lemma quantum_cong: "binade x = binade y \<Longrightarrow> quantum x = quantum y"
  by (simp add: quantum_def)

lemma to_double_zero [simp]: "to_double 0 = 0"
  by (simp add: to_double_def)

lemma to_double_sgn: "to_double (sgn x * v) = sgn x * to_double v"
proof -
  consider "x < 0" | "x = 0" | "0 < x" by linarith
  then show ?thesis
    by cases (simp_all add: to_double_minus)
qed

lemma is_double_abs: "is_double \<bar>x\<bar> = is_double x"
proof -
  have "\<bar>x\<bar> / quantum x \<in> \<int> \<longleftrightarrow> x / quantum x \<in> \<int>"
  proof (cases "0 \<le> x")
    case True
    then show ?thesis by simp
  next
    case False
    then have "\<bar>x\<bar> / quantum x = - (x / quantum x)" by simp
    then show ?thesis by (simp only: minus_in_Ints_iff)
  qed
  then show ?thesis by (simp add: is_double_alt)
qed

lemma binade_le:
  assumes "x \<noteq> 0" "\<bar>x\<bar> < 2 powr of_int k"
  shows "binade x < k"
proof (rule ccontr)
  assume "\<not> binade x < k"
  then have "2 powr of_int k \<le> (2 :: real) powr of_int (binade x)"
    by (intro powr_mono) auto
  with binade_bounds(1) [OF assms(1)] assms(2) show False by linarith
qed

lemma binade_ge:
  assumes "2 powr of_int k \<le> \<bar>x\<bar>"
  shows "k \<le> binade x"
proof (rule ccontr)
  assume "\<not> k \<le> binade x"
  then have "2 powr of_int (binade x + 1) \<le> (2 :: real) powr of_int k"
    by (intro powr_mono) auto
  moreover have "(0 :: real) < 2 powr of_int k" by simp
  with assms have "x \<noteq> 0" by auto
  ultimately show False using binade_bounds(2) [of x] assms by linarith
qed

lemma div_two_powr_int:
  assumes "j \<le> i"
  shows "of_int m * 2 powr of_int i / 2 powr of_int j \<in> (\<int> :: real set)"
proof -
  have "(2 :: real) powr of_int i = 2 powr (of_int (i - j) + of_int j)" by simp
  also have "\<dots> = 2 powr of_int (i - j) * 2 powr of_int j" by (rule powr_add)
  also have "2 powr of_int (i - j) = (2 :: real) ^ nat (i - j)"
    using assms two_powr_int [of "i - j"] by simp
  finally have "of_int m * 2 powr of_int i / 2 powr of_int j
      = (of_int (m * 2 ^ nat (i - j)) :: real)"
    by simp
  then show ?thesis by (simp only: Ints_of_int)
qed

lemma is_double_of_int:
  assumes "\<bar>k\<bar> < 2 ^ 53"
  shows "is_double (of_int k)"
proof (cases "k = 0")
  case True
  then show ?thesis by (simp add: is_double_alt)
next
  case False
  define x :: real where "x = of_int k"
  have xn: "x \<noteq> 0" using False by (simp add: x_def)
  have "1 \<le> \<bar>k\<bar>" using False by simp
  then have "(1 :: real) \<le> \<bar>x\<bar>"
    unfolding x_def by (metis of_int_1_le_iff of_int_abs)
  then have "2 powr of_int 0 \<le> \<bar>x\<bar>" by simp
  then have b0: "0 \<le> binade x" by (rule binade_ge)
  have "\<bar>x\<bar> < 2 ^ 53"
    using assms unfolding x_def by (metis of_int_abs of_int_less_numeral_power_cancel_iff)
  then have x53: "\<bar>x\<bar> < 2 powr of_int 53" by (simp add: two_powr_int)
  then have b52: "binade x < 53" using xn by (intro binade_le)
  have q: "quantum x = 2 powr of_int (binade x - 52)"
    using b0 by (simp add: quantum_normal)
  have "of_int k * 2 powr of_int 0 / 2 powr of_int (binade x - 52) \<in> (\<int> :: real set)"
    using b52 by (intro div_two_powr_int) simp
  then have "x / 2 powr of_int (binade x - 52) \<in> \<int>" by (simp add: x_def)
  then have "x / quantum x \<in> \<int>" by (simp only: q)
  moreover have "\<bar>x\<bar> < double_limit"
  proof -
    have "(2 :: real) ^ 53 \<le> 2 ^ 1024" by (intro power_increasing) simp_all
    with \<open>\<bar>x\<bar> < 2 ^ 53\<close> show ?thesis unfolding double_limit_def by linarith
  qed
  ultimately show ?thesis by (simp add: is_double_alt x_def)
qed

lemma to_double_of_int: "\<bar>k\<bar> < 2 ^ 53 \<Longrightarrow> to_double (of_int k) = of_int k"
  by (intro to_double_id is_double_of_int)

lemma to_double_numeral [simp]:
  "numeral w < (2 ^ 53 :: int) \<Longrightarrow> to_double (numeral w) = numeral w"
  "numeral w < (2 ^ 53 :: int) \<Longrightarrow> to_double (- numeral w) = - numeral w"
  "to_double 1 = 1"
  using to_double_of_int [of "numeral w"] to_double_of_int [of "- numeral w"]
    to_double_of_int [of 1]
  by simp_all

lemma to_double_close:
  assumes "q \<noteq> 0" "\<bar>q\<bar> < 2 powr of_int k" "- 1021 \<le> k"
  shows "\<bar>to_double q - q\<bar> \<le> 2 powr of_int (k - 54)"
proof -
  have "binade q < k" using assms(1,2) by (rule binade_le)
  then have "quantum q \<le> 2 powr of_int (k - 53)"
    unfolding quantum_def using assms(3) by (intro powr_mono) auto
  moreover have "(2 :: real) powr of_int (k - 53) = 2 * 2 powr of_int (k - 54)"
  proof -
    have "(2 :: real) powr of_int (k - 53) = 2 powr (1 + of_int (k - 54))" by simp
    also have "\<dots> = 2 powr 1 * 2 powr of_int (k - 54)" by (rule powr_add)
    finally show ?thesis by simp
  qed
  ultimately show ?thesis using to_double_error [of q] by linarith
qed

lemma round_even_bound:
  fixes k :: int
  assumes "\<bar>y\<bar> < of_int k"
  shows "\<bar>round_even y\<bar> \<le> k"
proof -
  have "\<bar>of_int (round_even y) :: real\<bar> < of_int k + 1"
    using round_even_error [of y] assms by linarith
  then have "\<bar>round_even y\<bar> < k + 1"
    by (metis of_int_abs of_int_less_iff of_int_add of_int_1)
  then show ?thesis by simp
qed

subsection \<open>Rounding is monotone\<close>

lemma round_even_mono:
  assumes "y \<le> z"
  shows "round_even y \<le> round_even z"
proof (cases "\<lfloor>y\<rfloor> = \<lfloor>z\<rfloor>")
  case True
  then show ?thesis
    using assms unfolding round_even_def Let_def by auto
next
  case False
  with assms have "\<lfloor>y\<rfloor> < \<lfloor>z\<rfloor>"
    using floor_mono [of y z] by linarith
  moreover have "round_even y \<le> \<lfloor>y\<rfloor> + 1" "\<lfloor>z\<rfloor> \<le> round_even z"
    unfolding round_even_def Let_def by auto
  ultimately show ?thesis by linarith
qed

lemma to_double_nonneg: "0 \<le> q \<Longrightarrow> 0 \<le> to_double q"
proof -
  assume q: "0 \<le> q"
  then have "0 \<le> q / quantum q" by simp
  then have "round_even 0 \<le> round_even (q / quantum q)" by (rule round_even_mono)
  moreover have "round_even 0 = 0" using round_even_of_int [of 0] by simp
  ultimately have "0 \<le> round_even (q / quantum q)" by simp
  then show ?thesis by (simp add: to_double_def)
qed

lemma binade_mono:
  assumes "0 < x" "x \<le> y"
  shows "binade x \<le> binade y"
proof -
  have "2 powr of_int (binade x) \<le> \<bar>y\<bar>"
    using binade_bounds(1) [of x] assms by simp
  then show ?thesis by (rule binade_ge)
qed

lemma to_double_mono_pos:
  assumes x: "0 < x" and xy: "x \<le> y"
  shows "to_double x \<le> to_double y"
proof (cases "quantum x = quantum y")
  case True
  have "x / quantum y \<le> y / quantum y"
    using xy by (simp add: divide_right_mono)
  then have "round_even (x / quantum y) \<le> round_even (y / quantum y)"
    by (rule round_even_mono)
  then have "of_int (round_even (x / quantum y)) * quantum y
      \<le> (of_int (round_even (y / quantum y)) :: real) * quantum y"
    by (intro mult_right_mono) simp_all
  then show ?thesis using x xy True by (simp add: to_double_def)
next
  case False
  define ex where "ex = max (binade x) (- 1022)"
  define ey where "ey = max (binade y) (- 1022)"
  have y: "0 < y" using x xy by simp
  have b: "binade x \<le> binade y" using x xy by (rule binade_mono)
  have Qx: "quantum x = 2 powr of_int (ex - 52)" by (simp add: quantum_def ex_def)
  have Qy: "quantum y = 2 powr of_int (ey - 52)" by (simp add: quantum_def ey_def)
  have "ex \<noteq> ey" using False Qx Qy by auto
  with b have lt: "ex < ey" and eyb: "ey = binade y" and bx: "binade x < binade y"
    by (auto simp: ex_def ey_def max_def split: if_splits)
  define p :: real where "p = 2 powr of_int ey"
  have xp: "x \<le> p"
  proof -
    have "\<bar>x\<bar> < 2 powr of_int (binade x + 1)" using x by (intro binade_bounds) simp
    also have "\<dots> \<le> 2 powr of_int ey" using bx eyb by (intro powr_mono) auto
    finally show ?thesis using x by (simp add: p_def)
  qed
  have py: "p \<le> y"
    using binade_bounds(1) [of y] y by (simp add: p_def eyb)
  have "of_int 1 * 2 powr of_int ey / 2 powr of_int (ex - 52) \<in> (\<int> :: real set)"
    using lt by (intro div_two_powr_int) simp
  then obtain K where K: "p / quantum x = of_int K"
    by (auto simp: p_def Qx elim: Ints_cases)
  have "x / quantum x \<le> of_int K"
    using xp K [symmetric] by (simp add: divide_right_mono)
  then have "round_even (x / quantum x) \<le> round_even (of_int K)" by (rule round_even_mono)
  then have "round_even (x / quantum x) \<le> K" by simp
  then have "(of_int (round_even (x / quantum x)) :: real) \<le> of_int K" by simp
  then have "of_int (round_even (x / quantum x)) * quantum x \<le> of_int K * quantum x"
    by (intro mult_right_mono) simp_all
  also have "of_int K * quantum x = p"
    using K by (simp add: field_simps)
  finally have 1: "to_double x \<le> p" using x by (simp add: to_double_def)
  have "of_int 1 * 2 powr of_int ey / 2 powr of_int (ey - 52) \<in> (\<int> :: real set)"
    by (intro div_two_powr_int) simp
  then obtain L where L: "p / quantum y = of_int L"
    by (auto simp: p_def Qy elim: Ints_cases)
  have "of_int L \<le> y / quantum y"
    using py L [symmetric] by (simp add: divide_right_mono)
  then have "round_even (of_int L) \<le> round_even (y / quantum y)" by (rule round_even_mono)
  then have "L \<le> round_even (y / quantum y)" by simp
  then have "(of_int L :: real) \<le> of_int (round_even (y / quantum y))" by simp
  then have "of_int L * quantum y \<le> of_int (round_even (y / quantum y)) * quantum y"
    by (intro mult_right_mono) simp_all
  moreover have "of_int L * quantum y = p"
    using L by (simp add: field_simps)
  ultimately have 2: "p \<le> to_double y" using y by (simp add: to_double_def)
  from 1 2 show ?thesis by simp
qed

lemma to_double_mono:
  assumes "x \<le> y"
  shows "to_double x \<le> to_double y"
proof -
  consider "0 < x" | "x \<le> 0" "0 \<le> y" | "y < 0" by linarith
  then show ?thesis
  proof cases
    case 1
    then show ?thesis using assms by (rule to_double_mono_pos)
  next
    case 2
    have "to_double x = - to_double (- x)" by (simp add: to_double_minus)
    moreover have "0 \<le> to_double (- x)" using 2 by (intro to_double_nonneg) simp
    moreover have "0 \<le> to_double y" using 2 by (intro to_double_nonneg)
    ultimately show ?thesis by simp
  next
    case 3
    then have "0 < - y" "- y \<le> - x" using assms by simp_all
    then have "to_double (- y) \<le> to_double (- x)" by (rule to_double_mono_pos)
    then show ?thesis by (simp add: to_double_minus)
  qed
qed

subsection \<open>Finite doubles and the results of the operations\<close>

lemma val_is_double [simp]: "is_double (val a)"
  using val [of a] by simp

lemma val_double_of [simp]: "is_double x \<Longrightarrow> val (double_of x) = x"
  by (simp add: double_of_inverse)

lemma float_to_double: "to_double q = 0 \<or> to_double q / quantum (to_double q) \<in> \<int>"
proof (cases "to_double q = 0")
  case True
  then show ?thesis by simp
next
  case False
  then have qn: "q \<noteq> 0" by auto
  define e where "e = max (binade q) (- 1022)"
  define m where "m = round_even (q / quantum q)"
  define d where "d = to_double q"
  have Q: "quantum q = 2 powr of_int (e - 52)" by (simp add: quantum_def e_def)
  have d: "d = of_int m * 2 powr of_int (e - 52)"
    using qn by (simp add: d_def to_double_def m_def Q)
  have dn: "d \<noteq> 0" using False by (simp add: d_def)
  have e1022: "- 1022 \<le> e" by (simp add: e_def)
  have top: "(2 :: real) powr of_int (e + 1) = 2 ^ 53 * 2 powr of_int (e - 52)"
  proof -
    have "(2 :: real) powr of_int (e + 1) = 2 powr (of_int 53 + of_int (e - 52))"
      by (simp add: algebra_simps)
    also have "\<dots> = 2 powr of_int 53 * 2 powr of_int (e - 52)" by (rule powr_add)
    finally show ?thesis by (simp add: two_powr_int)
  qed
  have "\<bar>q\<bar> < 2 powr of_int (binade q + 1)" using qn by (rule binade_bounds)
  also have "\<dots> \<le> 2 powr of_int (e + 1)" by (intro powr_mono) (auto simp: e_def)
  finally have "\<bar>q\<bar> < 2 ^ 53 * quantum q" by (simp only: top Q)
  then have "\<bar>q\<bar> / quantum q < 2 ^ 53" by (simp add: pos_divide_less_eq)
  then have "\<bar>q / quantum q\<bar> < of_int (2 ^ 53)" by (simp add: abs_divide)
  then have m53: "\<bar>m\<bar> \<le> 2 ^ 53" unfolding m_def by (rule round_even_bound)
  have absd: "\<bar>d\<bar> = of_int \<bar>m\<bar> * 2 powr of_int (e - 52)"
    by (simp add: d abs_mult)
  have "d / quantum d \<in> \<int>"
  proof (cases "\<bar>m\<bar> = 2 ^ 53")
    case True
    have "\<bar>d\<bar> = of_int (2 ^ 53) * 2 powr of_int (e - 52)"
      unfolding absd True ..
    also have "\<dots> = 2 powr of_int (e + 1)"
      unfolding top by simp
    finally have "\<bar>d\<bar> = 2 powr of_int (e + 1)" .
    then have "binade d = e + 1"
      by (intro binade_eqI) (simp_all add: powr_less_mono del: of_int_add)
    then have "quantum d = 2 powr of_int (e - 51)"
      using e1022 by (simp add: quantum_def max_def)
    also have "\<dots> = 2 * 2 powr of_int (e - 52)"
    proof -
      have "(2 :: real) powr of_int (e - 51) = 2 powr (1 + of_int (e - 52))" by simp
      also have "\<dots> = 2 powr 1 * 2 powr of_int (e - 52)" by (rule powr_add)
      finally show ?thesis by simp
    qed
    finally have half: "d / quantum d = of_int m / 2" by (simp add: d)
    from True consider "m = 2 ^ 53" | "m = - (2 ^ 53)" by linarith
    then show ?thesis
    proof cases
      case 1
      have "d / quantum d = of_int (2 ^ 52)" unfolding half 1 by simp
      then show ?thesis by (simp only: Ints_of_int)
    next
      case 2
      have "d / quantum d = of_int (- (2 ^ 52))" unfolding half 2 by simp
      then show ?thesis by (simp only: Ints_of_int)
    qed
  next
    case False
    with m53 have "\<bar>m\<bar> < 2 ^ 53" by simp
    then have "(of_int \<bar>m\<bar> :: real) < of_int (2 ^ 53)" by (simp only: of_int_less_iff)
    then have "\<bar>d\<bar> < 2 ^ 53 * 2 powr of_int (e - 52)"
      unfolding absd by (intro mult_strict_right_mono) simp_all
    then have "\<bar>d\<bar> < 2 powr of_int (e + 1)" by (simp only: top)
    then have "binade d < e + 1" using dn by (intro binade_le)
    then have "max (binade d) (- 1022) - 52 \<le> e - 52" using e1022 by simp
    then have "of_int m * 2 powr of_int (e - 52)
        / 2 powr of_int (max (binade d) (- 1022) - 52) \<in> (\<int> :: real set)"
      by (rule div_two_powr_int)
    then show ?thesis by (simp only: d quantum_def)
  qed
  then show ?thesis by (simp add: d_def)
qed

lemma is_double_round: "\<bar>to_double q\<bar> < double_limit \<Longrightarrow> is_double (to_double q)"
  using float_to_double [of q] by (auto simp: is_double_alt)

lemma js_number_fin:
  "\<bar>to_double q\<bar> < double_limit \<Longrightarrow> js_number q = Fin (double_of (to_double q))"
  by (auto simp: js_number_def Let_def)

lemma js_number_double: "is_double x \<Longrightarrow> js_number x = Fin (double_of x)"
proof -
  assume d: "is_double x"
  have "0 < double_limit" by (simp add: double_limit_def)
  with d have "\<bar>to_double x\<bar> < double_limit"
    by (auto simp: to_double_id is_double_def)
  then show ?thesis using d by (simp add: js_number_fin to_double_id)
qed

lemma js_number_cases:
  obtains (fin) "\<bar>to_double q\<bar> < double_limit" "js_number q = Fin (double_of (to_double q))"
      "val (double_of (to_double q)) = to_double q"
    | (pos) "double_limit \<le> to_double q" "js_number q = PosInf"
    | (neg) "to_double q \<le> - double_limit" "js_number q = NegInf"
proof -
  have l: "0 < double_limit" by (simp add: double_limit_def)
  consider "double_limit \<le> to_double q" | "to_double q \<le> - double_limit"
    | "\<bar>to_double q\<bar> < double_limit" by linarith
  then show ?thesis
  proof cases
    case 1
    then show ?thesis by (intro pos) (simp_all add: js_number_def)
  next
    case 2
    then show ?thesis using l by (intro neg) (simp_all add: js_number_def)
  next
    case 3
    then show ?thesis
      by (intro fin) (simp_all add: js_number_fin is_double_round)
  qed
qed

text \<open>Every double is a multiple of the least subnormal number.\<close>

lemma double_multiple:
  assumes "is_double x"
  shows "\<exists>k :: int. x = of_int k * 2 powr of_int (- 1074)"
proof (cases "x = 0")
  case True
  then show ?thesis by (intro exI [of _ 0]) simp
next
  case False
  define e where "e = max (binade x) (- 1022)"
  have Q: "quantum x = 2 powr of_int (e - 52)" by (simp add: quantum_def e_def)
  from assms False obtain m :: int where m: "x / quantum x = of_int m"
    by (auto simp: is_double_alt elim: Ints_cases)
  then have x: "x = of_int m * 2 powr of_int (e - 52)"
    by (simp add: Q field_simps)
  have "of_int m * 2 powr of_int (e - 52) / 2 powr of_int (- 1074) \<in> (\<int> :: real set)"
    by (intro div_two_powr_int) (simp add: e_def)
  then obtain k :: int where "of_int m * 2 powr of_int (e - 52) / 2 powr of_int (- 1074)
      = (of_int k :: real)"
    by (auto elim: Ints_cases)
  then have "x = of_int k * 2 powr of_int (- 1074)"
    unfolding x [symmetric] by (simp add: field_simps)
  then show ?thesis by blast
qed

lemma is_double_least: "is_double (2 powr of_int (- 1074))"
proof -
  define t :: real where "t = 2 powr of_int (- 1074)"
  have b: "binade t = - 1074"
    unfolding t_def by (intro binade_eqI) (simp_all add: powr_less_mono del: of_int_add)
  then have q: "quantum t = t"
    by (simp add: quantum_def t_def)
  have "t < 2 powr of_int 0" unfolding t_def by (intro powr_less_mono) simp_all
  then have "\<bar>t\<bar> < double_limit" by (simp add: double_limit_def t_def)
  moreover have "t / quantum t \<in> \<int>" unfolding q by (simp add: t_def)
  ultimately show ?thesis by (simp add: is_double_alt t_def)
qed

lemma to_double_difference:
  assumes "is_double a" "is_double b" "a \<noteq> b"
  shows "to_double (a - b) \<noteq> 0"
proof -
  define t :: real where "t = 2 powr of_int (- 1074)"
  have t0: "0 < t" by (simp add: t_def)
  have tt: "to_double t = t" unfolding t_def by (intro to_double_id is_double_least)
  obtain ka kb :: int where k: "a = of_int ka * t" "b = of_int kb * t"
    using assms(1,2) double_multiple unfolding t_def by blast
  then have d: "a - b = of_int (ka - kb) * t" by (simp add: algebra_simps)
  have "ka \<noteq> kb" using assms(3) k by auto
  then consider "1 \<le> ka - kb" | "ka - kb \<le> - 1" by linarith
  then show ?thesis
  proof cases
    case 1
    then have "(1 :: real) \<le> of_int (ka - kb)" by (simp only: of_int_1_le_iff)
    then have "1 * t \<le> of_int (ka - kb) * t" using t0 by (intro mult_right_mono) simp_all
    then have "t \<le> a - b" by (simp add: d)
    then have "to_double t \<le> to_double (a - b)" by (rule to_double_mono)
    then show ?thesis using t0 tt by simp
  next
    case 2
    then have "(of_int (ka - kb) :: real) \<le> of_int (- 1)" by (simp only: of_int_le_iff)
    then have "of_int (ka - kb) * t \<le> of_int (- 1) * t"
      using t0 by (intro mult_right_mono) simp_all
    then have "a - b \<le> - t" by (simp add: d)
    then have "to_double (a - b) \<le> to_double (- t)" by (rule to_double_mono)
    then show ?thesis using t0 tt by (simp add: to_double_minus)
  qed
qed

lemma js_number_zero: "is_zero (js_number q) \<longleftrightarrow> to_double q = 0"
  by (rule js_number_cases [of q]) (auto simp: is_zero_def double_limit_def)

lemma js_sub_nonzero: "a \<noteq> b \<Longrightarrow> \<not> is_zero (js_sub a b)"
proof (cases a; cases b)
  fix x y assume "a \<noteq> b" "a = Fin x" "b = Fin y"
  then have "val x \<noteq> val y" by (simp add: val_inject)
  then have "to_double (val x - val y) \<noteq> 0"
    by (intro to_double_difference) simp_all
  then show ?thesis
    using \<open>a = Fin x\<close> \<open>b = Fin y\<close> by (simp add: js_number_zero)
qed (simp_all add: is_zero_def)

lemma js_div_zero: "js_div a b = None \<longleftrightarrow> is_zero b"
  by (cases a; cases b) (simp_all add: is_zero_def)

subsection \<open>Doubles by their bits, and bounds of rounded results\<close>

lemma ratio_bound:
  assumes "x \<noteq> 0"
  shows "\<bar>x\<bar> / quantum x < 2 ^ 53"
proof -
  define e where "e = max (binade x) (- 1022)"
  have Q: "quantum x = 2 powr of_int (e - 52)" by (simp add: quantum_def e_def)
  have top: "(2 :: real) powr of_int (e + 1) = 2 ^ 53 * 2 powr of_int (e - 52)"
  proof -
    have "(2 :: real) powr of_int (e + 1) = 2 powr (of_int 53 + of_int (e - 52))"
      by (simp add: algebra_simps)
    also have "\<dots> = 2 powr of_int 53 * 2 powr of_int (e - 52)" by (rule powr_add)
    finally show ?thesis by (simp add: two_powr_int)
  qed
  have "\<bar>x\<bar> < 2 powr of_int (binade x + 1)" using assms by (rule binade_bounds)
  also have "\<dots> \<le> 2 powr of_int (e + 1)" by (intro powr_mono) (auto simp: e_def)
  finally have "\<bar>x\<bar> < 2 ^ 53 * quantum x" by (simp only: top Q)
  then show ?thesis by (simp add: pos_divide_less_eq)
qed

lemma is_double_scaled:
  fixes k j :: int
  assumes k: "\<bar>k\<bar> < 2 ^ 53" and j: "- 1074 \<le> j"
    and lim: "\<bar>of_int k * 2 powr of_int j\<bar> < double_limit"
  shows "is_double (of_int k * 2 powr of_int j)"
proof (cases "k = 0")
  case True
  then show ?thesis by (simp add: is_double_alt)
next
  case False
  define x :: real where "x = of_int k * 2 powr of_int j"
  have xn: "x \<noteq> 0" using False by (simp add: x_def)
  have "(of_int \<bar>k\<bar> :: real) < of_int (2 ^ 53)" using k by (simp only: of_int_less_iff)
  then have "\<bar>x\<bar> < 2 ^ 53 * 2 powr of_int j"
    unfolding x_def by (simp add: abs_mult)
  also have "\<dots> = 2 powr of_int 53 * 2 powr of_int j" by (simp add: two_powr_int)
  also have "\<dots> = 2 powr of_int (53 + j)" by (simp add: powr_add)
  finally have "binade x < 53 + j" using xn by (intro binade_le)
  then have "max (binade x) (- 1022) - 52 \<le> j" using j by simp
  then have "of_int k * 2 powr of_int j / 2 powr of_int (max (binade x) (- 1022) - 52)
      \<in> (\<int> :: real set)"
    by (rule div_two_powr_int)
  then have "x / quantum x \<in> \<int>" by (simp only: x_def quantum_def)
  with lim show ?thesis by (simp add: is_double_alt x_def)
qed

lemma two_powr_nat: "2 powr of_int (int n) = (2 :: real) ^ n"
  by (simp add: powr_realpow)

lemma is_double_power: "n \<le> 1023 \<Longrightarrow> is_double (2 ^ n)"
proof -
  assume n: "n \<le> 1023"
  have "(2 :: real) ^ n < 2 ^ 1024" using n by (intro power_strict_increasing) simp_all
  then have "\<bar>of_int 1 * 2 powr of_int (int n)\<bar> < double_limit"
    unfolding two_powr_nat double_limit_def by simp
  then have "is_double (of_int 1 * 2 powr of_int (int n))"
    by (intro is_double_scaled) simp_all
  then show ?thesis unfolding two_powr_nat by simp
qed

lemma is_double_minus [simp]: "is_double (- x) = is_double x"
  using is_double_abs [of "- x"] is_double_abs [of x] by simp

lemma is_double_scale_up:
  assumes c: "is_double c" and lim: "\<bar>c\<bar> * 2 ^ n < double_limit"
  shows "is_double (c * 2 ^ n)"
proof (cases "c = 0")
  case True
  then show ?thesis by (simp add: is_double_alt)
next
  case False
  define e where "e = max (binade c) (- 1022)"
  have Q: "quantum c = 2 powr of_int (e - 52)" by (simp add: quantum_def e_def)
  from c False obtain k :: int where k: "c / quantum c = of_int k"
    by (auto simp: is_double_alt elim: Ints_cases)
  then have ck: "c = of_int k * 2 powr of_int (e - 52)"
    by (simp add: Q field_simps)
  have "\<bar>c / quantum c\<bar> < 2 ^ 53"
    using ratio_bound [OF False] by (simp add: abs_divide)
  then have "\<bar>(of_int k :: real)\<bar> < of_int (2 ^ 53)" by (simp add: k)
  then have k53: "\<bar>k\<bar> < 2 ^ 53"
    by (metis of_int_abs of_int_less_iff)
  have "(2 :: real) powr of_int (e - 52) * 2 ^ n = 2 powr of_int (e - 52) * 2 powr of_int (int n)"
    by (simp only: two_powr_nat)
  also have "\<dots> = 2 powr of_int (e - 52 + int n)" by (simp add: powr_add)
  finally have eq: "c * 2 ^ n = of_int k * 2 powr of_int (e - 52 + int n)"
    by (simp add: ck)
  have "is_double (of_int k * 2 powr of_int (e - 52 + int n))"
  proof (rule is_double_scaled [OF k53])
    show "- 1074 \<le> e - 52 + int n" by (simp add: e_def)
    show "\<bar>of_int k * 2 powr of_int (e - 52 + int n)\<bar> < double_limit"
      using lim unfolding eq [symmetric] by (simp add: abs_mult)
  qed
  then show ?thesis by (simp only: eq)
qed

text \<open>A result between two doubles is rounded to a double between them.\<close>

lemma to_double_le: "is_double u \<Longrightarrow> x \<le> u \<Longrightarrow> to_double x \<le> u"
  using to_double_mono [of x u] by (simp add: to_double_id)

lemma to_double_ge: "is_double l \<Longrightarrow> l \<le> x \<Longrightarrow> l \<le> to_double x"
  using to_double_mono [of l x] by (simp add: to_double_id)

lemma to_double_abs_le:
  assumes "is_double u" "\<bar>x\<bar> \<le> u"
  shows "\<bar>to_double x\<bar> \<le> u"
proof -
  have "to_double x \<le> u" using assms by (intro to_double_le) simp_all
  moreover have "- u \<le> to_double x" using assms by (intro to_double_ge) simp_all
  ultimately show ?thesis by simp
qed

lemma js_number_bounded:
  assumes "is_double u" "\<bar>x\<bar> \<le> u"
  obtains d where "js_number x = Fin d" "val d = to_double x" "\<bar>val d\<bar> \<le> u"
proof -
  have b: "\<bar>to_double x\<bar> \<le> u" using assms by (rule to_double_abs_le)
  have "\<bar>u\<bar> < double_limit" using assms(1) b by (auto simp: is_double_def double_limit_def)
  with b have l: "\<bar>to_double x\<bar> < double_limit" by simp
  then have "js_number x = Fin (double_of (to_double x))"
    and "val (double_of (to_double x)) = to_double x"
    by (simp_all add: js_number_fin is_double_round)
  with b show ?thesis by (intro that [of "double_of (to_double x)"]) simp_all
qed

lemma is_double_numeral [simp]:
  "numeral w < (2 ^ 53 :: int) \<Longrightarrow> is_double (numeral w)"
  "is_double 0" "is_double 1"
  using is_double_of_int [of "numeral w"] is_double_of_int [of 0] is_double_of_int [of 1]
  by simp_all

lemma to_double_limit: "to_double double_limit = double_limit"
proof -
  have b: "binade double_limit = 1024"
    unfolding double_limit_def
  proof (rule binade_eqI)
    show "2 powr of_int 1024 \<le> \<bar>(2 :: real) ^ 1024\<bar>"
      using two_powr_nat [of 1024] by simp
    have "(2 :: real) ^ 1024 < 2 ^ 1025" by (intro power_strict_increasing) simp_all
    then show "\<bar>(2 :: real) ^ 1024\<bar> < 2 powr of_int (1024 + 1)"
      using two_powr_nat [of 1025] by simp
  qed
  then have q: "quantum double_limit = 2 powr of_int 972"
    by (simp add: quantum_def)
  have "double_limit = 2 powr of_int (52 + 972)"
    using two_powr_nat [of 1024] by (simp add: double_limit_def)
  also have "\<dots> = 2 powr of_int 52 * 2 powr of_int 972"
    unfolding of_int_add by (rule powr_add)
  also have "(2 :: real) powr of_int 52 = of_int (2 ^ 52)"
    using two_powr_nat [of 52] by simp
  finally have e: "double_limit = of_int (2 ^ 52) * quantum double_limit" by (simp only: q)
  have "double_limit / quantum double_limit = of_int (2 ^ 52)"
    by (subst e) simp
  moreover have "double_limit \<noteq> 0" by (simp add: double_limit_def)
  ultimately have "to_double double_limit = of_int (2 ^ 52) * quantum double_limit"
    by (simp only: to_double_def round_even_of_int if_False)
  then show ?thesis by (simp only: e [symmetric])
qed

lemma js_number_overflow:
  "double_limit \<le> q \<Longrightarrow> js_number q = PosInf"
  "q \<le> - double_limit \<Longrightarrow> js_number q = NegInf"
proof -
  have l: "0 < double_limit" by (simp add: double_limit_def)
  show "js_number q = PosInf" if "double_limit \<le> q"
  proof -
    have "to_double double_limit \<le> to_double q" using that by (rule to_double_mono)
    then show ?thesis by (simp add: js_number_def to_double_limit)
  qed
  show "js_number q = NegInf" if "q \<le> - double_limit"
  proof -
    have "to_double q \<le> to_double (- double_limit)" using that by (rule to_double_mono)
    then have "to_double q \<le> - double_limit" by (simp add: to_double_minus to_double_limit)
    with l show ?thesis by (simp add: js_number_def)
  qed
qed

lemma is_double_to_double:
  assumes "\<bar>q\<bar> < 2 ^ 1023"
  shows "is_double (to_double q)"
proof -
  have d: "is_double (2 ^ 1023)" by (intro is_double_power) simp
  have "\<bar>to_double q\<bar> \<le> 2 ^ 1023"
    using assms by (intro to_double_abs_le [OF d]) simp
  also have "\<dots> < (2 :: real) ^ 1024" by (intro power_strict_increasing) simp_all
  finally have "\<bar>to_double q\<bar> < double_limit" by (simp only: double_limit_def)
  then show ?thesis by (rule is_double_round)
qed

section \<open>Properties of the geometry filter\<close>

subsection \<open>Counting around the ring\<close>

lemma ring_count_from_step:
  "i < length ring \<Longrightarrow>
   ring_count_from crossed ring i =
     (if crossed (ring ! i) (ring ! prev_vertex (length ring) i) then 1 else 0)
       + ring_count_from crossed ring (Suc i)"
  by (simp add: ring_count_from_def upt_conv_Cons)

lemma ring_count_from_end: "length ring \<le> i \<Longrightarrow> ring_count_from crossed ring i = 0"
  by (simp add: ring_count_from_def)

lemma ring_count_none:
  assumes "\<And>k. k < length ring \<Longrightarrow>
     \<not> crossed (ring ! k) (ring ! prev_vertex (length ring) k)"
  shows "ring_count_from crossed ring 0 = 0"
  using assms by (simp add: ring_count_from_def)

lemma prev_vertex_Suc: "Suc i < n \<Longrightarrow> prev_vertex n (Suc i) = i"
  by (simp add: prev_vertex_def)

lemma prev_vertex_0: "0 < n \<Longrightarrow> prev_vertex n 0 = n - 1"
  by (simp add: prev_vertex_def)

lemma prev_vertex_less: "0 < n \<Longrightarrow> prev_vertex n k < n"
  by (simp add: prev_vertex_def)

lemma changes_parity:
  "i \<le> n \<Longrightarrow>
   odd (length (filter (\<lambda>k. b k \<noteq> b (k - 1)) [Suc i..<Suc n])) = (b i \<noteq> (b n :: bool))"
proof (induction n)
  case 0
  then show ?case by simp
next
  case (Suc n)
  show ?case
  proof (cases "i = Suc n")
    case True
    then show ?thesis by simp
  next
    case False
    with Suc.prems have "i \<le> n" by simp
    from Suc.IH [OF this] show ?thesis
      using \<open>i \<le> n\<close> by auto
  qed
qed

text \<open>
  Around a closed ring, a property that holds on the edges whose end points differ in
  some respect holds on an even number of edges.
\<close>

lemma ring_count_even:
  assumes all: "\<And>k. k < length ring \<Longrightarrow>
     crossed (ring ! k) (ring ! prev_vertex (length ring) k)
       = ((b k :: bool) \<noteq> b (prev_vertex (length ring) k))"
  shows "even (ring_count_from crossed ring 0)"
proof (cases ring)
  case Nil
  then show ?thesis by (simp add: ring_count_from_def)
next
  case (Cons v vs)
  define n where "n = length vs"
  have len: "length ring = Suc n" by (simp add: Cons n_def)
  have "filter (\<lambda>k. crossed (ring ! k) (ring ! prev_vertex (Suc n) k)) [Suc 0..<Suc n]
      = filter (\<lambda>k. b k \<noteq> b (k - 1)) [Suc 0..<Suc n]"
  proof (rule filter_cong [OF refl])
    fix k assume "k \<in> set [Suc 0..<Suc n]"
    then have k: "0 < k" "k < Suc n" by auto
    then have "prev_vertex (Suc n) k = k - 1"
      by (cases k) (simp_all add: prev_vertex_Suc)
    with all [of k] k len
    show "crossed (ring ! k) (ring ! prev_vertex (Suc n) k) = (b k \<noteq> b (k - 1))"
      by simp
  qed
  moreover have "crossed (ring ! 0) (ring ! prev_vertex (Suc n) 0) = (b 0 \<noteq> b n)"
    using all [of 0] len by (simp add: prev_vertex_0)
  ultimately show ?thesis
    using changes_parity [of 0 n b]
    by (auto simp: ring_count_from_def len upt_conv_Cons [of 0] simp del: upt_Suc)
qed

subsection \<open>The edge test never divides by zero\<close>

lemma intersect_alt:
  "intersect pt vi vj =
     (if js_gt (snd vi) (snd pt) \<noteq> js_gt (snd vj) (snd pt)
      then (case js_div (js_mul (js_sub (fst vj) (fst vi)) (js_sub (snd pt) (snd vi)))
                  (js_sub (snd vj) (snd vi)) of
              None \<Rightarrow> None
            | Some q \<Rightarrow> Some (js_lt (fst pt) (js_add q (fst vi))))
      else Some False)"
  by (cases pt; cases vi; cases vj) (simp add: intersect_def cong: option.case_cong)

lemma intersect_total: "\<exists>b. intersect pt vi vj = Some b"
proof (cases "js_gt (snd vi) (snd pt) \<noteq> js_gt (snd vj) (snd pt)")
  case False
  then have "intersect pt vi vj = Some False" by (simp add: intersect_alt)
  then show ?thesis by blast
next
  case True
  then have "snd vj \<noteq> snd vi" by auto
  then have "\<not> is_zero (js_sub (snd vj) (snd vi))" by (rule js_sub_nonzero)
  then obtain q where "js_div (js_mul (js_sub (fst vj) (fst vi)) (js_sub (snd pt) (snd vi)))
      (js_sub (snd vj) (snd vi)) = Some q"
    using js_div_zero by (metis option.exhaust)
  with True show ?thesis by (simp add: intersect_alt)
qed

lemma intersect_level: "snd vi = snd vj \<Longrightarrow> intersect pt vi vj = Some False"
  by (simp add: intersect_alt)

lemma pip_loop_crossings:
  "(i < length polygon \<Longrightarrow> j = prev_vertex (length polygon) i) \<Longrightarrow>
   pip_loop pt polygon i j inside = Some (inside \<noteq> odd (crossings_from pt polygon i))"
proof (induction pt polygon i j inside rule: pip_loop.induct)
  case (1 pt polygon i j inside)
  show ?case
  proof (cases "i < length polygon")
    case False
    then show ?thesis
      by (simp add: pip_loop.simps [of pt polygon i] crossings_from_def ring_count_from_end)
  next
    case True
    obtain b where b: "intersect pt (polygon ! i) (polygon ! j) = Some b"
      using intersect_total by blast
    have j: "j = prev_vertex (length polygon) i" using True "1.prems" by simp
    have IH: "pip_loop pt polygon (i + 1) i (if b then \<not> inside else inside) =
       Some ((if b then \<not> inside else inside) \<noteq> odd (crossings_from pt polygon (i + 1)))"
      using "1.IH" [OF True b] by (simp add: prev_vertex_Suc)
    show ?thesis
      using True IH j b
      by (auto simp: pip_loop.simps [of pt polygon i] crossings_from_def
          ring_count_from_step)
  qed
qed

lemma pointInPolygon_crossings:
  "pointInPolygon pt polygon = Some (odd (crossings pt polygon))"
  unfolding pointInPolygon_def crossings_def
  by (subst pip_loop_crossings) (auto simp: prev_vertex_0)

lemma pip_loop_level_edge:
  assumes "i < length polygon" "snd (polygon ! i) = snd (polygon ! j)"
  shows "pip_loop pt polygon i j inside = pip_loop pt polygon (i + 1) i inside"
  using assms by (simp add: pip_loop.simps [of pt polygon i] intersect_level)

lemma js_lt_asym: "js_lt a b \<Longrightarrow> \<not> js_lt b a"
  by (cases a; cases b) simp_all

lemma mem_ring:
  assumes "k < length polygon"
  shows "polygon ! k \<in> set polygon" "polygon ! prev_vertex (length polygon) k \<in> set polygon"
proof -
  have "prev_vertex (length polygon) k < length polygon"
    using assms by (intro prev_vertex_less) auto
  then show "polygon ! prev_vertex (length polygon) k \<in> set polygon" by simp
  show "polygon ! k \<in> set polygon" using assms by simp
qed

lemma no_crossings:
  assumes "\<And>k. k < length polygon \<Longrightarrow>
     intersect pt (polygon ! k) (polygon ! prev_vertex (length polygon) k) = Some False"
  shows "pointInPolygon pt polygon = Some False"
proof -
  have "crossings pt polygon = 0"
    unfolding crossings_def crossings_from_def
    by (rule ring_count_none) (simp add: assms)
  then show ?thesis by (simp add: pointInPolygon_crossings)
qed

lemma outside_height_not_inside:
  assumes "outside_height pt polygon"
  shows "pointInPolygon pt polygon = Some False"
proof (rule no_crossings)
  fix k assume k: "k < length polygon"
  let ?vi = "polygon ! k" and ?vj = "polygon ! prev_vertex (length polygon) k"
  from assms consider "js_lt (snd pt) (snd ?vi)" "js_lt (snd pt) (snd ?vj)"
    | "js_lt (snd ?vi) (snd pt)" "js_lt (snd ?vj) (snd pt)"
    using mem_ring [OF k] by (auto simp: outside_height_def list_all_iff)
  then have "js_gt (snd ?vi) (snd pt) = js_gt (snd ?vj) (snd pt)"
    by cases (auto simp: js_gt_def dest: js_lt_asym)
  then show "intersect pt ?vi ?vj = Some False" by (simp add: intersect_alt)
qed

subsection \<open>Polygons of a bounded magnitude\<close>

lemma fits_cases:
  assumes "fits m a"
  obtains d where "a = Fin d" "\<bar>val d\<bar> \<le> 2 ^ m"
  using assms by (cases a) simp_all

lemma straddle_finite:
  assumes "js_gt (Fin yi) y \<noteq> js_gt (Fin yj) y"
  obtains d where "y = Fin d" "(val yi > val d) \<noteq> (val yj > val d)"
  using assms by (cases y) (simp_all add: js_gt_def)

text \<open>
  On an edge of a polygon whose coordinates have a magnitude up to \<open>2^m\<close>, no step of
  the interpolation overflows, and its result has a magnitude up to \<open>2^(m+2)\<close>.
\<close>

lemma edge_bounded:
  assumes m: "m \<le> 510"
    and vi: "fits m (fst vi)" "fits m (snd vi)"
    and vj: "fits m (fst vj)" "fits m (snd vj)"
    and g: "js_gt (snd vi) (snd pt) \<noteq> js_gt (snd vj) (snd pt)"
  obtains s where "intersect pt vi vj = Some (js_lt (fst pt) (Fin s))"
    and "\<bar>val s\<bar> \<le> 2 ^ (m + 2)"
proof -
  from vi obtain xi yi where xi: "fst vi = Fin xi" "\<bar>val xi\<bar> \<le> 2 ^ m"
    and yi: "snd vi = Fin yi" "\<bar>val yi\<bar> \<le> 2 ^ m"
    by (auto elim!: fits_cases)
  from vj obtain xj yj where xj: "fst vj = Fin xj" "\<bar>val xj\<bar> \<le> 2 ^ m"
    and yj: "snd vj = Fin yj" "\<bar>val yj\<bar> \<le> 2 ^ m"
    by (auto elim!: fits_cases)
  from g obtain y where y: "snd pt = Fin y" and side: "(val yi > val y) \<noteq> (val yj > val y)"
    unfolding yi yj by (rule straddle_finite)
  define U :: real where "U = 2 ^ (m + 1)"
  have U: "is_double U" unfolding U_def using m by (intro is_double_power) simp
  have U2: "U = 2 ^ m + 2 ^ m" by (simp add: U_def)
  have U0: "0 < U" by (simp add: U_def)
  obtain a where a: "js_number (val xj - val xi) = Fin a" "\<bar>val a\<bar> \<le> U"
    using xi(2) xj(2) by (auto simp: U2 intro: js_number_bounded [OF U, of "val xj - val xi"])
  obtain c where c: "js_number (val yj - val yi) = Fin c" "val c = to_double (val yj - val yi)"
      "\<bar>val c\<bar> \<le> U"
    using yi(2) yj(2) by (auto simp: U2 intro: js_number_bounded [OF U, of "val yj - val yi"])
  have ne: "val yj \<noteq> val yi" using side by auto
  then have c0: "val c \<noteq> 0"
    unfolding c(2) by (intro to_double_difference) simp_all
  have "\<bar>val y - val yi\<bar> \<le> \<bar>val yj - val yi\<bar>" using side by auto
  also have "\<dots> \<le> U" using yi(2) yj(2) by (simp add: U2)
  finally obtain b where b: "js_number (val y - val yi) = Fin b"
      "val b = to_double (val y - val yi)"
    by (auto intro: js_number_bounded [OF U, of "val y - val yi"])
  have bc: "\<bar>val b\<bar> \<le> \<bar>val c\<bar>"
  proof (cases "val yi < val yj")
    case True
    with side have "0 \<le> val y - val yi" "val y - val yi \<le> val yj - val yi" by auto
    then have "to_double 0 \<le> val b" "val b \<le> val c"
      unfolding b(2) c(2) by (intro to_double_mono; simp)+
    then show ?thesis by simp
  next
    case False
    with side ne have "val y - val yi \<le> 0" "val yj - val yi \<le> val y - val yi" by auto
    then have "val b \<le> to_double 0" "val c \<le> val b"
      unfolding b(2) c(2) by (intro to_double_mono; simp)+
    then show ?thesis by simp
  qed
  define T where "T = \<bar>val c\<bar> * 2 ^ (m + 1)"
  have T: "is_double T"
    unfolding T_def
  proof (rule is_double_scale_up)
    show "is_double \<bar>val c\<bar>" by (simp add: is_double_abs)
    have "\<bar>\<bar>val c\<bar>\<bar> * 2 ^ (m + 1) \<le> U * 2 ^ (m + 1)"
      using c(3) by (intro mult_right_mono) simp_all
    also have "\<dots> = 2 ^ (2 * (m + 1))"
      unfolding U_def by (simp add: power2_eq_square [symmetric] power_mult [symmetric] mult.commute)
    also have "\<dots> < (2 :: real) ^ 1024"
      using m by (intro power_strict_increasing) simp_all
    finally show "\<bar>\<bar>val c\<bar>\<bar> * 2 ^ (m + 1) < double_limit"
      by (simp only: double_limit_def)
  qed
  have "\<bar>val a * val b\<bar> = \<bar>val a\<bar> * \<bar>val b\<bar>" by (rule abs_mult)
  also have "\<dots> \<le> U * \<bar>val c\<bar>"
    using a(2) bc by (intro mult_mono) simp_all
  also have "\<dots> = T" by (simp add: T_def U_def)
  finally obtain p where p: "js_number (val a * val b) = Fin p" "\<bar>val p\<bar> \<le> T"
    by (auto intro: js_number_bounded [OF T, of "val a * val b"])
  have "\<bar>val p / val c\<bar> = \<bar>val p\<bar> / \<bar>val c\<bar>" by (rule abs_divide)
  also have "\<dots> \<le> T / \<bar>val c\<bar>"
    using p(2) by (intro divide_right_mono) simp_all
  also have "\<dots> = U" using c0 by (simp add: T_def U_def)
  finally obtain q where q: "js_number (val p / val c) = Fin q" "\<bar>val q\<bar> \<le> U"
    by (auto intro: js_number_bounded [OF U, of "val p / val c"])
  define V :: real where "V = 2 ^ (m + 2)"
  have V: "is_double V" unfolding V_def using m by (intro is_double_power) simp
  have "\<bar>val q + val xi\<bar> \<le> U + 2 ^ m" using q(2) xi(2) by linarith
  also have "\<dots> \<le> V" by (simp add: U_def V_def)
  finally obtain s where s: "js_number (val q + val xi) = Fin s" "\<bar>val s\<bar> \<le> V"
    by (auto intro: js_number_bounded [OF V, of "val q + val xi"])
  have "intersect pt vi vj = Some (js_lt (fst pt) (Fin s))"
    using g by (simp add: intersect_alt xi(1) yi(1) xj(1) yj(1) y a(1) b(1) c(1) c0 p(1) q(1) s(1))
  with s(2) show ?thesis by (intro that [of s]) (simp_all add: V_def)
qed

lemma js_lt_trans_left:
  assumes "js_lt x (Fin l)" "val l \<le> val s"
  shows "js_lt x (Fin s)"
  using assms by (cases x) simp_all

lemma js_lt_trans_right:
  assumes "js_lt (Fin u) x" "val s \<le> val u"
  shows "\<not> js_lt x (Fin s)"
  using assms by (cases x) simp_all

lemma far_aside_not_inside:
  assumes m: "m \<le> 510" and b: "bounded_by m polygon" and far: "far_aside m pt"
  shows "pointInPolygon pt polygon = Some False"
proof -
  define V :: real where "V = 2 ^ (m + 2)"
  have V: "is_double V" unfolding V_def using m by (intro is_double_power) simp
  have nV: "js_number (- V) = Fin (double_of (- V))" "val (double_of (- V)) = - V"
    and pV: "js_number V = Fin (double_of V)" "val (double_of V) = V"
    using V by (simp_all add: js_number_double)
  have edge: "\<exists>s. intersect pt (polygon ! k) (polygon ! prev_vertex (length polygon) k)
              = Some (js_lt (fst pt) (Fin s)) \<and> - V \<le> val s \<and> val s \<le> V"
    if k: "k < length polygon"
      and g: "js_gt (snd (polygon ! k)) (snd pt)
            \<noteq> js_gt (snd (polygon ! prev_vertex (length polygon) k)) (snd pt)"
    for k
  proof -
    have f: "fits m (fst (polygon ! k))" "fits m (snd (polygon ! k))"
      "fits m (fst (polygon ! prev_vertex (length polygon) k))"
      "fits m (snd (polygon ! prev_vertex (length polygon) k))"
      using mem_ring [OF k] b by (simp_all add: bounded_by_def list_all_iff)
    obtain s where "intersect pt (polygon ! k) (polygon ! prev_vertex (length polygon) k)
              = Some (js_lt (fst pt) (Fin s))" "\<bar>val s\<bar> \<le> 2 ^ (m + 2)"
      by (rule edge_bounded [OF m f g])
    then show ?thesis unfolding V_def abs_le_iff by (intro exI [of _ s]) linarith
  qed
  from far have "js_lt (fst pt) (Fin (double_of (- V))) \<or> js_lt (Fin (double_of V)) (fst pt)"
    unfolding far_aside_def V_def [symmetric] nV(1) pV(1) .
  then show ?thesis
  proof
    assume left: "js_lt (fst pt) (Fin (double_of (- V)))"
    have "(intersect pt (polygon ! k) (polygon ! prev_vertex (length polygon) k) = Some True)
        = (js_gt (snd (polygon ! k)) (snd pt)
            \<noteq> js_gt (snd (polygon ! prev_vertex (length polygon) k)) (snd pt))"
      if k: "k < length polygon" for k
    proof (cases "js_gt (snd (polygon ! k)) (snd pt)
            \<noteq> js_gt (snd (polygon ! prev_vertex (length polygon) k)) (snd pt)")
      case False
      then show ?thesis by (simp add: intersect_alt)
    next
      case True
      from edge [OF k True] obtain s
        where s: "intersect pt (polygon ! k) (polygon ! prev_vertex (length polygon) k)
            = Some (js_lt (fst pt) (Fin s))" "- V \<le> val s"
        by blast
      have "js_lt (fst pt) (Fin s)"
        using left by (rule js_lt_trans_left) (simp only: nV(2) s(2))
      with True s(1) show ?thesis by simp
    qed
    then have "even (crossings pt polygon)"
      unfolding crossings_def crossings_from_def
      by (rule ring_count_even [where b = "\<lambda>k. js_gt (snd (polygon ! k)) (snd pt)"])
    then show ?thesis by (simp add: pointInPolygon_crossings)
  next
    assume right: "js_lt (Fin (double_of V)) (fst pt)"
    show ?thesis
    proof (rule no_crossings)
      fix k assume k: "k < length polygon"
      show "intersect pt (polygon ! k) (polygon ! prev_vertex (length polygon) k) = Some False"
      proof (cases "js_gt (snd (polygon ! k)) (snd pt)
            \<noteq> js_gt (snd (polygon ! prev_vertex (length polygon) k)) (snd pt)")
        case False
        then show ?thesis by (simp add: intersect_alt)
      next
        case True
        from edge [OF k True] obtain s
          where s: "intersect pt (polygon ! k) (polygon ! prev_vertex (length polygon) k)
              = Some (js_lt (fst pt) (Fin s))" "val s \<le> V"
          by blast
        have "\<not> js_lt (fst pt) (Fin s)"
          using right by (rule js_lt_trans_right) (simp only: pV(2) s(2))
        with s(1) show ?thesis by simp
      qed
    qed
  qed
qed

subsection \<open>On the grid of integers the edge test is exact\<close>

lemma integral_cases:
  assumes "integral a"
  obtains d k where "a = Fin d" "val d = of_int k" "\<bar>k\<bar> \<le> 2 ^ 25"
proof -
  from assms obtain d where d: "a = Fin d" "of_int \<lfloor>val d\<rfloor> = val d" "\<bar>val d\<bar> \<le> 2 ^ 25"
    by (cases a) simp_all
  have "\<bar>(of_int \<lfloor>val d\<rfloor> :: real)\<bar> \<le> 2 ^ 25" unfolding d(2) by (rule d(3))
  then have "(of_int \<bar>\<lfloor>val d\<rfloor>\<bar> :: real) \<le> of_int (2 ^ 25)" by simp
  then have "\<bar>\<lfloor>val d\<rfloor>\<bar> \<le> 2 ^ 25" by (simp only: of_int_le_iff)
  then show ?thesis
    using d(1) d(2) [symmetric] by (intro that [of d "\<lfloor>val d\<rfloor>"])
qed

lemma js_number_of_int:
  "\<bar>k\<bar> < 2 ^ 53 \<Longrightarrow> js_number (of_int k) = Fin (double_of (of_int k))"
  "\<bar>k\<bar> < 2 ^ 53 \<Longrightarrow> val (double_of (of_int k)) = of_int k"
  by (simp_all add: js_number_double is_double_of_int)

text \<open>A finer grid between the integers: the multiples of \<open>2^(-26)\<close>.\<close>

lemma is_double_fine:
  fixes k :: int
  assumes "\<bar>k\<bar> < 2 ^ 53"
  shows "is_double (of_int k / 2 ^ 26)"
proof -
  have e: "(of_int k :: real) / 2 ^ 26 = of_int k * 2 powr of_int (- 26)"
    by (simp add: powr_minus_divide)
  have "(of_int \<bar>k\<bar> :: real) < of_int (2 ^ 53)" using assms by (simp only: of_int_less_iff)
  then have "\<bar>(of_int k :: real) / 2 ^ 26\<bar> < 2 ^ 53" by (simp add: field_simps)
  also have "\<dots> < (2 :: real) ^ 1024" by (intro power_strict_increasing) simp_all
  finally have "\<bar>of_int k * 2 powr of_int (- 26)\<bar> < double_limit"
    by (simp only: e double_limit_def)
  with assms have "is_double (of_int k * 2 powr of_int (- 26))"
    by (intro is_double_scaled) simp_all
  then show ?thesis by (simp only: e)
qed

lemma quotient_gap:
  fixes P C M :: int
  assumes C: "C \<noteq> 0" "\<bar>C\<bar> \<le> 2 ^ 26" and lt: "(of_int M :: real) < of_int P / of_int C"
  shows "(of_int (M * 2 ^ 26 + 1) :: real) / 2 ^ 26 \<le> of_int P / of_int C"
proof -
  have c26: "\<bar>(of_int C :: real)\<bar> \<le> 2 ^ 26"
  proof -
    have "(of_int \<bar>C\<bar> :: real) \<le> of_int (2 ^ 26)" using C(2) by (simp only: of_int_le_iff)
    then show ?thesis by simp
  qed
  have main: "(of_int M :: real) + 1 / 2 ^ 26 \<le> of_int P / of_int C"
  proof (cases "0 < C")
    case True
    then have c: "(0 :: real) < of_int C" by simp
    from lt c have "(of_int (M * C) :: real) < of_int P" by (simp add: pos_less_divide_eq)
    then have "M * C < P" by (simp only: of_int_less_iff)
    then have "M * C + 1 \<le> P" by simp
    then have "(of_int (M * C + 1) :: real) \<le> of_int P" by (simp only: of_int_le_iff)
    then have "(of_int (M * C + 1) :: real) / of_int C \<le> of_int P / of_int C"
      using c by (intro divide_right_mono) simp_all
    moreover have "(of_int (M * C + 1) :: real) / of_int C = of_int M + 1 / of_int C"
      using c by (simp add: add_divide_distrib)
    ultimately have "of_int M + 1 / of_int C \<le> (of_int P :: real) / of_int C" by simp
    moreover have "1 / 2 ^ 26 \<le> 1 / (of_int C :: real)"
      using c c26 by (intro divide_left_mono) simp_all
    ultimately show ?thesis by linarith
  next
    case False
    with C(1) have c: "(of_int C :: real) < 0" by simp
    from lt c have "(of_int P :: real) < of_int (M * C)" by (simp add: neg_less_divide_eq)
    then have "P < M * C" by (simp only: of_int_less_iff)
    then have "P + 1 \<le> M * C" by simp
    then have "(of_int (P + 1) :: real) \<le> of_int (M * C)" by (simp only: of_int_le_iff)
    then have "(of_int (M * C) :: real) / of_int C \<le> of_int (P + 1) / of_int C"
      using c by (intro divide_right_mono_neg) simp_all
    moreover have "(of_int (M * C) :: real) / of_int C = of_int M"
      using c by simp
    moreover have "(of_int (P + 1) :: real) / of_int C = of_int P / of_int C - 1 / (- of_int C)"
      using c by (simp add: add_divide_distrib)
    ultimately have "of_int M + 1 / (- of_int C) \<le> (of_int P :: real) / of_int C" by simp
    moreover have "1 / 2 ^ 26 \<le> 1 / (- of_int C :: real)"
      using c c26 by (intro divide_left_mono) simp_all
    ultimately show ?thesis by linarith
  qed
  have eq: "(of_int (M * 2 ^ 26 + 1) :: real) / 2 ^ 26 = of_int M + 1 / 2 ^ 26"
    by (simp add: add_divide_distrib)
  show ?thesis unfolding eq by (rule main)
qed

lemma on_grid_cases:
  assumes "on_grid pt"
  obtains x y X Y where "pt = (Fin x, Fin y)" "val x = of_int X" "val y = of_int Y"
    "\<bar>X\<bar> \<le> 2 ^ 25" "\<bar>Y\<bar> \<le> 2 ^ 25" "place pt = (of_int X, of_int Y)"
proof -
  from assms have "integral (fst pt)" "integral (snd pt)" by (simp_all add: on_grid_def)
  then obtain x y X Y where "fst pt = Fin x" "val x = of_int X" "\<bar>X\<bar> \<le> 2 ^ 25"
    "snd pt = Fin y" "val y = of_int Y" "\<bar>Y\<bar> \<le> 2 ^ 25"
    by (auto elim!: integral_cases)
  then show ?thesis
    by (intro that [of x y X Y]) (simp_all add: place_def prod_eq_iff)
qed

lemma edge_exact:
  assumes "on_grid pt" "on_grid vi" "on_grid vj"
  shows "intersect pt vi vj = Some (ray_crosses (place pt) (place vi) (place vj))"
proof -
  from assms(1) obtain x y X Y where pt: "pt = (Fin x, Fin y)"
    and x: "val x = of_int X" "\<bar>X\<bar> \<le> 2 ^ 25" and y: "val y = of_int Y" "\<bar>Y\<bar> \<le> 2 ^ 25"
    and ppt: "place pt = (of_int X, of_int Y)"
    by (auto elim!: on_grid_cases)
  from assms(2) obtain xi yi Xi Yi where vi: "vi = (Fin xi, Fin yi)"
    and xi: "val xi = of_int Xi" "\<bar>Xi\<bar> \<le> 2 ^ 25" and yi: "val yi = of_int Yi" "\<bar>Yi\<bar> \<le> 2 ^ 25"
    and pvi: "place vi = (of_int Xi, of_int Yi)"
    by (auto elim!: on_grid_cases)
  from assms(3) obtain xj yj Xj Yj where vj: "vj = (Fin xj, Fin yj)"
    and xj: "val xj = of_int Xj" "\<bar>Xj\<bar> \<le> 2 ^ 25" and yj: "val yj = of_int Yj" "\<bar>Yj\<bar> \<le> 2 ^ 25"
    and pvj: "place vj = (of_int Xj, of_int Yj)"
    by (auto elim!: on_grid_cases)
  show ?thesis
  proof (cases "(Yi > Y) \<noteq> (Yj > Y)")
    case False
    then show ?thesis
      by (simp add: intersect_def ray_crosses_def pt vi vj place_def js_gt_def y(1) yi(1) yj(1))
  next
    case True
    define A where "A = Xj - Xi"
    define B where "B = Y - Yi"
    define C where "C = Yj - Yi"
    define P where "P = A * B"
    define M where "M = X - Xi"
    have A: "\<bar>A\<bar> \<le> 2 ^ 26" using xi(2) xj(2) by (simp add: A_def)
    have B: "\<bar>B\<bar> \<le> 2 ^ 26" using y(2) yi(2) by (simp add: B_def)
    have C: "\<bar>C\<bar> \<le> 2 ^ 26" "C \<noteq> 0" using yi(2) yj(2) True by (auto simp: C_def)
    have M: "\<bar>M\<bar> \<le> 2 ^ 26" using x(2) xi(2) by (simp add: M_def)
    have "\<bar>P\<bar> = \<bar>A\<bar> * \<bar>B\<bar>" by (simp add: P_def abs_mult)
    also have "\<dots> \<le> 2 ^ 26 * 2 ^ 26" using A B by (intro mult_mono) simp_all
    finally have P: "\<bar>P\<bar> \<le> 2 ^ 52" by simp
    have a: "js_sub (Fin xj) (Fin xi) = Fin (double_of (of_int A))"
      "val (double_of (of_int A)) = of_int A"
      using A js_number_of_int [of A] by (simp_all add: xi(1) xj(1) A_def)
    have b: "js_sub (Fin y) (Fin yi) = Fin (double_of (of_int B))"
      "val (double_of (of_int B)) = of_int B"
      using B js_number_of_int [of B] by (simp_all add: y(1) yi(1) B_def)
    have c: "js_sub (Fin yj) (Fin yi) = Fin (double_of (of_int C))"
      "val (double_of (of_int C)) = of_int C"
      using C js_number_of_int [of C] by (simp_all add: yi(1) yj(1) C_def)
    have p: "js_mul (Fin (double_of (of_int A))) (Fin (double_of (of_int B)))
        = Fin (double_of (of_int P))" "val (double_of (of_int P)) = of_int P"
      using P js_number_of_int [of P] by (simp_all add: a(2) b(2) P_def)
    define r :: real where "r = of_int P / of_int C"
    have "\<bar>r\<bar> = of_int \<bar>P\<bar> / of_int \<bar>C\<bar>" by (simp add: r_def)
    also have "\<dots> \<le> of_int \<bar>P\<bar> / 1"
      using C(2) by (intro divide_left_mono) simp_all
    also have "\<dots> \<le> of_int (2 ^ 52)" using P by (simp only: div_by_1 of_int_le_iff)
    finally have r52: "\<bar>r\<bar> \<le> 2 ^ 52" by simp
    have d52: "is_double (2 ^ 52)" by (intro is_double_power) simp
    have d53: "is_double (2 ^ 53)" by (intro is_double_power) simp
    obtain q where q: "js_number r = Fin q" "val q = to_double r" "\<bar>val q\<bar> \<le> 2 ^ 52"
      using js_number_bounded [OF d52 r52] by blast
    have "\<bar>val q + of_int Xi\<bar> \<le> 2 ^ 52 + of_int \<bar>Xi\<bar>"
      using q(3) by simp
    also have "(of_int \<bar>Xi\<bar> :: real) \<le> of_int (2 ^ 25)" using xi(2) by (simp only: of_int_le_iff)
    finally have "\<bar>val q + of_int Xi\<bar> \<le> 2 ^ 53" by simp
    from js_number_bounded [OF d53 this]
    obtain s where s: "js_number (val q + of_int Xi) = Fin s"
      "val s = to_double (val q + of_int Xi)"
      by blast
    have C0: "(of_int C :: real) \<noteq> 0" using C(2) by simp
    have gd: "js_gt (Fin yi) (Fin y) \<noteq> js_gt (Fin yj) (Fin y)"
      using True by (simp add: js_gt_def y(1) yi(1) yj(1))
    have dv: "js_div (Fin (double_of (of_int P))) (Fin (double_of (of_int C))) = Some (Fin q)"
      using C0 by (simp add: p(2) c(2) r_def [symmetric] q(1))
    have ad: "js_add (Fin q) (Fin xi) = Fin s"
      by (simp add: xi(1) s(1))
    have "intersect pt vi vj
        = (case js_div (js_mul (js_sub (Fin xj) (Fin xi)) (js_sub (Fin y) (Fin yi)))
                  (js_sub (Fin yj) (Fin yi)) of
             None \<Rightarrow> None
           | Some q \<Rightarrow> Some (js_lt (Fin x) (js_add q (Fin xi))))"
      using gd by (simp only: intersect_alt pt vi vj fst_conv snd_conv simp_thms if_True)
    also have "\<dots> = Some (js_lt (Fin x) (Fin s))"
      by (simp only: a(1) b(1) c(1) p(1) dv ad option.case)
    finally have int: "intersect pt vi vj = Some (of_int X < val s)"
      by (simp add: x(1))
    have ray: "ray_crosses (place pt) (place vi) (place vj) = (of_int M < r)"
      using True
      by (auto simp: ray_crosses_def pt vi vj place_def x(1) y(1) xi(1) yi(1) xj(1) yj(1)
          r_def P_def A_def B_def C_def M_def)
    have "(of_int X < val s) = (of_int M < r)"
    proof (cases "of_int M < r")
      case True
      have g: "is_double (of_int (M * 2 ^ 26 + 1) / 2 ^ 26)"
        using M by (intro is_double_fine) simp
      have h: "is_double (of_int (X * 2 ^ 26 + 1) / 2 ^ 26)"
        using x(2) by (intro is_double_fine) simp
      have "of_int (M * 2 ^ 26 + 1) / 2 ^ 26 \<le> r"
        unfolding r_def using C True by (intro quotient_gap) (simp_all add: r_def)
      then have "of_int (M * 2 ^ 26 + 1) / 2 ^ 26 \<le> val q"
        unfolding q(2) by (rule to_double_ge [OF g])
      then have "of_int (X * 2 ^ 26 + 1) / 2 ^ 26 \<le> val q + of_int Xi"
        by (simp add: M_def field_simps)
      then have "of_int (X * 2 ^ 26 + 1) / 2 ^ 26 \<le> val s"
        unfolding s(2) by (rule to_double_ge [OF h])
      moreover have "(of_int X :: real) < of_int (X * 2 ^ 26 + 1) / 2 ^ 26"
        by (simp add: field_simps)
      ultimately show ?thesis using True by simp
    next
      case False
      then have "r \<le> of_int M" by simp
      moreover have "is_double (of_int M)" using M by (intro is_double_of_int) simp
      ultimately have "val q \<le> of_int M" unfolding q(2) by (intro to_double_le)
      then have "val q + of_int Xi \<le> of_int X" by (simp add: M_def)
      moreover have "is_double (of_int X)" using x(2) by (intro is_double_of_int) simp
      ultimately have "val s \<le> of_int X" unfolding s(2) by (intro to_double_le)
      with False show ?thesis by simp
    qed
    with int ray show ?thesis by simp
  qed
qed

lemma ring_count_map:
  "ring_count_from crossed (map f ring) i = ring_count_from (\<lambda>a b. crossed (f a) (f b)) ring i"
proof -
  have "filter (\<lambda>k. crossed (map f ring ! k) (map f ring ! prev_vertex (length ring) k))
          [i..<length ring]
      = filter (\<lambda>k. crossed (f (ring ! k)) (f (ring ! prev_vertex (length ring) k)))
          [i..<length ring]"
  proof (rule filter_cong [OF refl])
    fix k assume "k \<in> set [i..<length ring]"
    then have k: "k < length ring" by simp
    then have "prev_vertex (length ring) k < length ring"
      by (intro prev_vertex_less) auto
    with k show "crossed (map f ring ! k) (map f ring ! prev_vertex (length ring) k)
        = crossed (f (ring ! k)) (f (ring ! prev_vertex (length ring) k))"
      by simp
  qed
  then show ?thesis by (simp add: ring_count_from_def)
qed

lemma ring_count_cong:
  assumes "\<And>k. k < length ring \<Longrightarrow>
     crossed (ring ! k) (ring ! prev_vertex (length ring) k)
       = crossed' (ring ! k) (ring ! prev_vertex (length ring) k)"
  shows "ring_count_from crossed ring i = ring_count_from crossed' ring i"
  unfolding ring_count_from_def
  by (rule arg_cong [where f = length], rule filter_cong [OF refl]) (simp add: assms)

lemma crossings_exact:
  assumes "on_grid pt" "list_all on_grid polygon"
  shows "crossings pt polygon = ray_crossings (place pt) (map place polygon)"
proof -
  have "intersect pt (polygon ! k) (polygon ! prev_vertex (length polygon) k) = Some True
      \<longleftrightarrow> ray_crosses (place pt) (place (polygon ! k))
            (place (polygon ! prev_vertex (length polygon) k))"
    if k: "k < length polygon" for k
  proof -
    have "on_grid (polygon ! k)" "on_grid (polygon ! prev_vertex (length polygon) k)"
      using mem_ring [OF k] assms(2) by (simp_all add: list_all_iff)
    with assms(1) show ?thesis by (simp add: edge_exact)
  qed
  then show ?thesis
    unfolding crossings_def crossings_from_def ray_crossings_def ring_count_map
    by (rule ring_count_cong)
qed

subsection \<open>The ray in the plane\<close>

lemma interp_between:
  fixes x y xi yi xj yj :: real
  assumes "(yi > y) \<noteq> (yj > y)"
  shows "min xi xj \<le> (xj - xi) * (y - yi) / (yj - yi) + xi"
    and "(xj - xi) * (y - yi) / (yj - yi) + xi \<le> max xi xj"
proof -
  define l where "l = (y - yi) / (yj - yi)"
  have ne: "yj - yi \<noteq> 0" using assms by auto
  have l0: "0 \<le> l" using assms unfolding l_def
    by (cases "yi > y") (auto simp: divide_nonneg_nonneg divide_nonpos_neg)
  have l1: "l \<le> 1" using assms ne unfolding l_def
    by (cases "yi > y") (auto simp: field_simps)
  have eq: "(xj - xi) * (y - yi) / (yj - yi) + xi = (1 - l) * xi + l * xj"
  proof -
    have "(xj - xi) * (y - yi) / (yj - yi) = l * (xj - xi)"
      unfolding l_def by simp
    then show ?thesis by (simp add: algebra_simps)
  qed
  have "(1 - l) * min xi xj \<le> (1 - l) * xi" "l * min xi xj \<le> l * xj"
    using l0 l1 by (auto intro: mult_left_mono)
  then have "(1 - l) * min xi xj + l * min xi xj \<le> (1 - l) * xi + l * xj" by linarith
  then show "min xi xj \<le> (xj - xi) * (y - yi) / (yj - yi) + xi"
    unfolding eq by (simp add: algebra_simps)
  have "(1 - l) * xi \<le> (1 - l) * max xi xj" "l * xj \<le> l * max xi xj"
    using l0 l1 by (auto intro: mult_left_mono)
  then have "(1 - l) * xi + l * xj \<le> (1 - l) * max xi xj + l * max xi xj" by linarith
  then show "(xj - xi) * (y - yi) / (yj - yi) + xi \<le> max xi xj"
    unfolding eq by (simp add: algebra_simps)
qed

lemma ray_crosses_alt:
  "ray_crosses pt vi vj =
     (((snd vi > snd pt) \<noteq> (snd vj > snd pt)) \<and>
      fst pt < (fst vj - fst vi) * (snd pt - snd vi) / (snd vj - snd vi) + fst vi)"
  by (cases pt; cases vi; cases vj) (simp add: ray_crosses_def)

lemma ray_crosses_right:
  assumes "fst vi < fst pt" "fst vj < fst pt"
  shows "\<not> ray_crosses pt vi vj"
proof
  assume c: "ray_crosses pt vi vj"
  then have s: "(snd vi > snd pt) \<noteq> (snd vj > snd pt)"
    and l: "fst pt < (fst vj - fst vi) * (snd pt - snd vi) / (snd vj - snd vi) + fst vi"
    by (auto simp: ray_crosses_alt)
  from interp_between(2) [OF s, of "fst vj" "fst vi"] l assms
  show False by simp
qed

lemma ray_crosses_left:
  assumes "fst pt < fst vi" "fst pt < fst vj"
  shows "ray_crosses pt vi vj = ((snd vi > snd pt) \<noteq> (snd vj > snd pt))"
proof (cases "(snd vi > snd pt) \<noteq> (snd vj > snd pt)")
  case True
  from interp_between(1) [OF True, of "fst vi" "fst vj"] assms
  have "fst pt < (fst vj - fst vi) * (snd pt - snd vi) / (snd vj - snd vi) + fst vi"
    by simp
  with True show ?thesis
    by (simp add: ray_crosses_alt)
next
  case False
  then show ?thesis
    by (auto simp: ray_crosses_alt)
qed

text \<open>
  In the plane, the ray from a point to the left or to the right of every vertex crosses
  an even number of edges.
\<close>

lemma ray_crossings_aside:
  assumes "list_all (\<lambda>v. fst pt < fst v) polygon \<or> list_all (\<lambda>v. fst v < fst pt) polygon"
  shows "even (ray_crossings pt polygon)"
  using assms
proof
  assume left: "list_all (\<lambda>v. fst pt < fst v) polygon"
  have "ray_crosses pt (polygon ! k) (polygon ! prev_vertex (length polygon) k)
      = ((snd (polygon ! k) > snd pt)
          \<noteq> (snd (polygon ! prev_vertex (length polygon) k) > snd pt))"
    if "k < length polygon" for k
    using mem_ring [OF that] left by (intro ray_crosses_left) (auto simp: list_all_iff)
  then show ?thesis
    unfolding ray_crossings_def
    by (rule ring_count_even [where b = "\<lambda>k. snd (polygon ! k) > snd pt"])
next
  assume right: "list_all (\<lambda>v. fst v < fst pt) polygon"
  have "\<not> ray_crosses pt (polygon ! k) (polygon ! prev_vertex (length polygon) k)"
    if "k < length polygon" for k
    using mem_ring [OF that] right by (intro ray_crosses_right) (auto simp: list_all_iff)
  then show ?thesis by (simp add: ray_crossings_def ring_count_none)
qed

lemma on_grid_lt:
  assumes "on_grid p" "on_grid v"
  shows "js_lt (fst p) (fst v) = (fst (place p) < fst (place v))"
  using assms by (auto elim!: on_grid_cases)

lemma grid_outside_bbox:
  assumes pt: "on_grid pt" and grid: "list_all on_grid polygon" and out: "outside_bbox pt polygon"
  shows "pointInPolygon pt polygon = Some False"
proof (cases "outside_height pt polygon")
  case True
  then show ?thesis by (rule outside_height_not_inside)
next
  case False
  with out have "list_all (\<lambda>v. js_lt (fst pt) (fst v)) polygon
      \<or> list_all (\<lambda>v. js_lt (fst v) (fst pt)) polygon"
    by (auto simp: outside_bbox_def outside_height_def)
  then have "list_all (\<lambda>v. fst (place pt) < fst v) (map place polygon)
      \<or> list_all (\<lambda>v. fst v < fst (place pt)) (map place polygon)"
    using pt grid by (auto simp: list_all_iff on_grid_lt)
  then have "even (ray_crossings (place pt) (map place polygon))"
    by (rule ray_crossings_aside)
  then show ?thesis
    using pt grid by (simp add: pointInPolygon_crossings crossings_exact)
qed

subsection \<open>Particular polygons\<close>

lemma huge_facts:
  "is_double huge" "is_double (2 * huge)" "0 < huge" "double_limit \<le> huge * huge"
proof -
  show "is_double huge" unfolding huge_def by (intro is_double_power) simp
  have "is_double (2 ^ 701)" by (intro is_double_power) simp
  moreover have "(2 :: real) ^ 701 = 2 * 2 ^ 700" by (simp only: power_Suc [symmetric]) simp
  ultimately show "is_double (2 * huge)" by (simp only: huge_def)
  show "0 < huge" by (simp add: huge_def)
  have "(2 :: real) ^ 1024 \<le> 2 ^ (700 + 700)" by (intro power_increasing) simp_all
  then show "double_limit \<le> huge * huge"
    by (simp only: huge_def double_limit_def power_add)
qed

lemma remote_facts: "is_double remote" "0 < remote"
  unfolding remote_def by (intro is_double_power, simp) simp

lemma square_inside: "pointInPolygon (js_number 2, js_number 2) square = Some True"
  by (simp add: pointInPolygon_def square_def pip_loop.simps intersect_def js_gt_def
      js_number_double)

lemma square_outside: "pointInPolygon (js_number 5, js_number 5) square = Some False"
  by (simp add: pointInPolygon_def square_def pip_loop.simps intersect_def js_gt_def
      js_number_double)

lemma spike_numbers:
  "js_number huge = Fin (double_of huge)" "val (double_of huge) = huge"
  "js_number (- huge) = Fin (double_of (- huge))" "val (double_of (- huge)) = - huge"
  "js_number (2 * huge) = Fin (double_of (2 * huge))" "val (double_of (2 * huge)) = 2 * huge"
  "js_number (- (2 * huge)) = Fin (double_of (- (2 * huge)))"
  "val (double_of (- (2 * huge))) = - (2 * huge)"
  "js_number (- remote) = Fin (double_of (- remote))" "val (double_of (- remote)) = - remote"
  "js_number 0 = Fin (double_of 0)" "val (double_of 0) = 0"
  using huge_facts(1,2) remote_facts(1) by (simp_all add: js_number_double)

lemma spike_overflow:
  "js_number (- (huge * huge)) = NegInf" "js_number (- (2 * huge * huge)) = NegInf"
proof -
  have "0 \<le> huge * huge" using huge_facts(3) by simp
  then have "huge * huge \<le> 2 * huge * huge" by (simp add: mult.assoc)
  with huge_facts(4) have "double_limit \<le> 2 * huge * huge" by linarith
  with huge_facts(4) show "js_number (- (huge * huge)) = NegInf"
    "js_number (- (2 * huge * huge)) = NegInf"
    by (simp_all add: js_number_overflow)
qed

lemma spike_edges:
  "intersect remote_point (js_number huge, js_number (- huge))
     (js_number (2 * huge), js_number (- huge)) = Some False"
  "intersect remote_point (js_number 0, js_number huge)
     (js_number huge, js_number (- huge)) = Some True"
  "intersect remote_point (js_number (2 * huge), js_number (- huge))
     (js_number 0, js_number huge) = Some False"
proof -
  note h = huge_facts(3)
  show "intersect remote_point (js_number huge, js_number (- huge))
     (js_number (2 * huge), js_number (- huge)) = Some False"
    using h by (simp add: intersect_def remote_point_def spike_numbers js_gt_def)
  have "js_mul (js_sub (js_number huge) (js_number 0)) (js_sub (js_number 0) (js_number huge))
      = NegInf"
    by (simp add: spike_numbers spike_overflow)
  moreover have "js_sub (js_number (- huge)) (js_number huge) = Fin (double_of (- (2 * huge)))"
    by (simp add: spike_numbers)
  ultimately show "intersect remote_point (js_number 0, js_number huge)
     (js_number huge, js_number (- huge)) = Some True"
    using h by (simp add: intersect_def remote_point_def js_gt_def spike_numbers
        del: js_sub.simps js_mul.simps)
  have "js_mul (js_sub (js_number 0) (js_number (2 * huge)))
          (js_sub (js_number 0) (js_number (- huge))) = NegInf"
    by (simp add: spike_numbers spike_overflow)
  moreover have "js_sub (js_number huge) (js_number (- huge)) = Fin (double_of (2 * huge))"
    by (simp add: spike_numbers)
  ultimately show "intersect remote_point (js_number (2 * huge), js_number (- huge))
     (js_number 0, js_number huge) = Some False"
    using h by (simp add: intersect_def remote_point_def js_gt_def spike_numbers
        del: js_sub.simps js_mul.simps)
qed

lemma spike_inside: "pointInPolygon remote_point spike = Some True"
  by (simp add: pointInPolygon_def spike_def pip_loop.simps spike_edges)

lemma spike_outside_bbox: "outside_bbox remote_point spike"
  using huge_facts(3) remote_facts(2)
  by (simp add: outside_bbox_def remote_point_def spike_def spike_numbers)

lemma spike_bounded: "bounded_by 701 spike"
proof -
  have "(2 :: real) ^ 701 = 2 * 2 ^ 700" by (simp only: power_Suc [symmetric]) simp
  then have e: "2 * huge = 2 ^ 701" by (simp only: huge_def)
  have h: "0 < huge" by (rule huge_facts)
  then have "\<bar>huge\<bar> \<le> 2 * huge" "\<bar>- huge\<bar> \<le> 2 * huge" "\<bar>2 * huge\<bar> \<le> 2 * huge"
    "\<bar>0 :: real\<bar> \<le> 2 * huge"
    by simp_all
  then have "\<bar>huge\<bar> \<le> 2 ^ 701" "\<bar>- huge\<bar> \<le> 2 ^ 701" "\<bar>2 * huge\<bar> \<le> 2 ^ 701"
    "\<bar>0 :: real\<bar> \<le> 2 ^ 701"
    by (simp_all only: e)
  then show ?thesis
    by (simp only: bounded_by_def spike_def spike_numbers list.pred_inject fits.simps fst_conv
        snd_conv simp_thms)
qed

lemma spike_plane:
  "ray_crossings (- remote, 0) [(huge, - huge), (0, huge), (2 * huge, - huge)] = 2"
proof -
  have h: "0 < huge" "0 < remote" by (rule huge_facts remote_facts)+
  have 1: "huge * (- huge) / (- huge - huge) = huge / 2"
    using h by (simp add: field_simps)
  have 2: "- (2 * huge) * huge / (huge + huge) + 2 * huge = huge"
    using h by (simp add: field_simps)
  show ?thesis
    using h
    by (simp add: ray_crossings_def ring_count_from_def prev_vertex_def ray_crosses_def
        upt_conv_Cons 1 2)
qed

lemma third_double: "to_double (1 / 3) = third"
  unfolding third_def
proof (rule to_double_near)
  show "(1 / 3 :: real) \<noteq> 0" by simp
  have b: "binade (1 / 3) = - 2"
    by (rule binade_eqI) (simp_all add: powr_minus_divide)
  then have q: "quantum (1 / 3) = 2 powr of_int (- 54)"
    by (simp add: quantum_def)
  have p: "(2 :: real) powr of_int (- 54) = 1 / 2 ^ 54"
    by (simp add: powr_minus_divide)
  have "(6004799503160661 / 2 ^ 54 :: real) / quantum (1 / 3) = of_int 6004799503160661"
    unfolding q p by simp
  then show "(6004799503160661 / 2 ^ 54 :: real) / quantum (1 / 3) \<in> \<int>"
    by (simp only: Ints_of_int)
  show "\<bar>6004799503160661 / 2 ^ 54 - 1 / 3 :: real\<bar> < quantum (1 / 3) / 2"
    unfolding q p by simp
qed

lemma third_facts:
  "js_number (1 / 3) = Fin (double_of third)" "val (double_of third) = third"
  "0 < third" "third < 1 / 3" "js_number third = Fin (double_of third)"
proof -
  show 0: "0 < third" and "third < 1 / 3" by (simp_all add: third_def)
  then have "\<bar>third\<bar> < double_limit"
    unfolding double_limit_def third_def by simp
  then have "\<bar>to_double (1 / 3)\<bar> < double_limit" by (simp only: third_double)
  then have "is_double (to_double (1 / 3))" by (rule is_double_round)
  then have d: "is_double third" by (simp only: third_double)
  then show "val (double_of third) = third" by (rule val_double_of)
  from d show "js_number third = Fin (double_of third)" by (rule js_number_double)
  from \<open>\<bar>to_double (1 / 3)\<bar> < double_limit\<close>
  have "js_number (1 / 3) = Fin (double_of (to_double (1 / 3)))" by (rule js_number_fin)
  then show "js_number (1 / 3) = Fin (double_of third)" by (simp only: third_double)
qed

lemma small_numbers:
  "js_number 0 = Fin (double_of 0)" "val (double_of 0) = 0"
  "js_number 1 = Fin (double_of 1)" "val (double_of 1) = 1"
  "js_number 3 = Fin (double_of 3)" "val (double_of 3) = 3"
  "js_number (- 1) = Fin (double_of (- 1))" "val (double_of (- 1)) = - 1"
  "js_number (- 2) = Fin (double_of (- 2))" "val (double_of (- 2)) = - 2"
  "js_number (- 3) = Fin (double_of (- 3))" "val (double_of (- 3)) = - 3"
  by (simp_all add: js_number_double)

lemma wedge_edges:
  "intersect near_edge (js_number 1, js_number 3) (js_number (- 1), js_number 3) = Some False"
  "intersect near_edge (js_number 0, js_number 0) (js_number 1, js_number 3) = Some False"
  "intersect near_edge (js_number (- 1), js_number 3) (js_number 0, js_number 0) = Some False"
proof -
  show "intersect near_edge (js_number 1, js_number 3) (js_number (- 1), js_number 3)
      = Some False"
    by (simp add: intersect_def near_edge_def small_numbers js_gt_def)
  show "intersect near_edge (js_number 0, js_number 0) (js_number 1, js_number 3) = Some False"
    by (simp add: intersect_def near_edge_def small_numbers js_gt_def third_facts(1,2,5))
  have d2: "is_double 2" by simp
  have d1: "is_double 1" by simp
  have "\<bar>2 / 3 :: real\<bar> \<le> 1" by simp
  from js_number_bounded [OF d1 this]
  obtain q where q: "js_number (2 / 3) = Fin q" "\<bar>val q\<bar> \<le> 1"
    by blast
  have "\<bar>val q - 1\<bar> \<le> 2" using q(2) by simp
  from js_number_bounded [OF d2 this]
  obtain s where s: "js_number (val q - 1) = Fin s" "val s = to_double (val q - 1)"
    by blast
  have "val s \<le> 0"
    unfolding s(2) using q(2) by (intro to_double_le) simp_all
  then have "\<not> third < val s" using third_facts(3) by simp
  then show "intersect near_edge (js_number (- 1), js_number 3) (js_number 0, js_number 0)
      = Some False"
    by (simp add: intersect_def near_edge_def small_numbers js_gt_def third_facts(1,2) q(1) s(1))
qed

lemma wedge_outside: "pointInPolygon near_edge wedge = Some False"
  by (simp add: pointInPolygon_def wedge_def pip_loop.simps wedge_edges)

lemma wedge_plane: "ray_crossings (place near_edge) (map place wedge) = 1"
  using third_facts(3,4)
  by (simp add: near_edge_def wedge_def place_def third_facts(1,2) small_numbers
      ray_crossings_def ring_count_from_def prev_vertex_def ray_crosses_def upt_conv_Cons)

lemma spike_place:
  "ray_crossings (place remote_point) (map place spike) = 2"
  using spike_plane by (simp add: remote_point_def spike_def place_def spike_numbers)

subsection \<open>The claims about the geometry filter\<close>




text \<open>
  Claim C9. \<open>pointInPolygon\<close> returns for every point and polygon, and no division by
  zero is evaluated on the way: the test of an edge never yields \<open>None\<close>. On an edge
  whose end points have the same second coordinate the test is false without the
  division, and the loop passes the edge with the flag unchanged.
\<close>

theorem pointInPolygon_total:
  "(\<forall>pt polygon. \<exists>b. pointInPolygon pt polygon = Some b) \<and>
   (\<forall>pt vi vj. \<exists>b. intersect pt vi vj = Some b) \<and>
   (\<forall>pt vi vj. snd vi = snd vj \<longrightarrow> intersect pt vi vj = Some False) \<and>
   (\<forall>pt polygon i j inside.
      i < length polygon \<and> snd (polygon ! i) = snd (polygon ! j) \<longrightarrow>
      pip_loop pt polygon i j inside = pip_loop pt polygon (i + 1) i inside)"
proof (intro conjI allI impI)
  show "\<exists>b. pointInPolygon pt polygon = Some b" for pt polygon
    by (simp add: pointInPolygon_crossings)
  show "\<exists>b. intersect pt vi vj = Some b" for pt vi vj
    by (rule intersect_total)
  show "intersect pt vi vj = Some False" if "snd vi = snd vj" for pt vi vj
    using that by (rule intersect_level)
  show "pip_loop pt polygon i j inside = pip_loop pt polygon (i + 1) i inside"
    if "i < length polygon \<and> snd (polygon ! i) = snd (polygon ! j)"
    for pt polygon i j inside
    using that by (simp add: pip_loop_level_edge)
qed

text \<open>The witness for claim C9: the edge of the square from (4,0) to (0,0).\<close>

theorem pointInPolygon_total_witness:
  "(0::nat) < length square \<and> snd (square ! 0) = snd (square ! 3) \<and>
   intersect (js_number 2, js_number 0) (square ! 0) (square ! 3) = Some False \<and>
   pip_loop (js_number 2, js_number 0) square 0 3 False
     = pip_loop (js_number 2, js_number 0) square (0 + 1) 0 False"
proof -
  have h: "(0::nat) < length square \<and> snd (square ! 0) = snd (square ! 3)"
    by (simp add: square_def)
  with pointInPolygon_total show ?thesis by blast
qed

section \<open>Properties of the classifier\<close>

lemma first_label_cases:
  "first_label tags =
     (if ''commercial.supermarket'' \<in> set tags then Some ''supermarket''
      else if ''healthcare.pharmacy'' \<in> set tags then Some ''pharmacy''
      else if ''catering.restaurant'' \<in> set tags then Some ''restaurant''
      else if ''catering.fast_food'' \<in> set tags then Some ''fastfood''
      else if ''accommodation.hotel'' \<in> set tags then Some ''hotel''
      else None)"
  by (simp add: first_label_def rules_def)

lemma sortByCategory_unmatched:
  "first_label tags = None \<Longrightarrow> sortByCategory p tags a = (p, a)"
  by (simp add: first_label_cases sortByCategory_def split: if_splits)

lemma sortByCategory_matched:
  assumes "first_label tags = Some l"
  shows "l \<in> set labels"
    and "fst (sortByCategory p tags a) = add_label l p"
    and "bucket l (snd (sortByCategory p tags a)) = bucket l a @ [add_label l p]"
    and "l' \<noteq> l \<Longrightarrow> bucket l' (snd (sortByCategory p tags a)) = bucket l' a"
  using assms
  by (auto simp: first_label_cases sortByCategory_def labels_def rules_def add_label_def
      bucket_def Let_def split: if_splits)

text \<open>
  Claim C2. The classifier takes the first rule, in the order supermarket, pharmacy,
  restaurant, fastfood, hotel, whose tag is among the tags of the POI: the label of
  that rule is appended to the categories of the POI, the POI is appended to the bucket
  of that label, and every other bucket stays as it was. When no rule matches, the
  POI and all buckets stay as they were, and nothing fails. A POI with the tags
  supermarket and restaurant lands in supermarket only, one with the tag fast food in
  fastfood only, one with the tag park in no bucket.
\<close>

theorem sortByCategory_first_match:
  "(\<forall>p tags a.
      (case first_label tags of
         None \<Rightarrow> sortByCategory p tags a = (p, a)
       | Some l \<Rightarrow>
           l \<in> set labels \<and>
           fst (sortByCategory p tags a) = add_label l p \<and>
           bucket l (snd (sortByCategory p tags a)) = bucket l a @ [add_label l p] \<and>
           (\<forall>l'. l' \<noteq> l \<longrightarrow> bucket l' (snd (sortByCategory p tags a)) = bucket l' a))) \<and>
   (\<forall>p. sortByCategory p [''commercial.supermarket'', ''catering.restaurant''] no_poi
        = (add_label ''supermarket'' p,
           no_poi\<lparr>supermarket := [add_label ''supermarket'' p]\<rparr>)) \<and>
   (\<forall>p. sortByCategory p [''catering.fast_food''] no_poi
        = (add_label ''fastfood'' p, no_poi\<lparr>fastfood := [add_label ''fastfood'' p]\<rparr>)) \<and>
   (\<forall>p. sortByCategory p [''leisure.park''] no_poi = (p, no_poi))"
proof (intro conjI allI)
  show "case first_label tags of
         None \<Rightarrow> sortByCategory p tags a = (p, a)
       | Some l \<Rightarrow>
           l \<in> set labels \<and>
           fst (sortByCategory p tags a) = add_label l p \<and>
           bucket l (snd (sortByCategory p tags a)) = bucket l a @ [add_label l p] \<and>
           (\<forall>l'. l' \<noteq> l \<longrightarrow> bucket l' (snd (sortByCategory p tags a)) = bucket l' a)"
    for p tags a
  proof (cases "first_label tags")
    case None
    then show ?thesis by (simp add: sortByCategory_unmatched)
  next
    case (Some l)
    then show ?thesis
      using sortByCategory_matched [OF Some] by simp
  qed
  show "sortByCategory p [''commercial.supermarket'', ''catering.restaurant''] no_poi
        = (add_label ''supermarket'' p, no_poi\<lparr>supermarket := [add_label ''supermarket'' p]\<rparr>)"
    for p
    by (simp add: sortByCategory_def add_label_def no_poi_def Let_def)
  show "sortByCategory p [''catering.fast_food''] no_poi
        = (add_label ''fastfood'' p, no_poi\<lparr>fastfood := [add_label ''fastfood'' p]\<rparr>)"
    for p
    by (simp add: sortByCategory_def add_label_def no_poi_def Let_def)
  show "sortByCategory p [''leisure.park''] no_poi = (p, no_poi)" for p
    by (simp add: sortByCategory_def)
qed

text \<open>
  The witness for claim C2: a POI with the tags restaurant and supermarket, in this
  order, lands in supermarket and leaves restaurant empty.
\<close>

theorem sortByCategory_first_match_witness:
  "first_label (categories corner_shop) = Some ''supermarket'' \<and>
   ''restaurant'' \<noteq> ''supermarket'' \<and>
   bucket ''supermarket'' (snd (sortByCategory corner_shop (categories corner_shop) no_poi))
     = [add_label ''supermarket'' corner_shop] \<and>
   bucket ''restaurant'' (snd (sortByCategory corner_shop (categories corner_shop) no_poi))
     = []"
proof -
  have f: "first_label (categories corner_shop) = Some ''supermarket''"
    by (simp add: first_label_def rules_def corner_shop_def)
  have e: "bucket ''supermarket'' no_poi = []" "bucket ''restaurant'' no_poi = []"
    by (simp_all add: bucket_def no_poi_def)
  from sortByCategory_first_match
  have "case first_label (categories corner_shop) of
         None \<Rightarrow> sortByCategory corner_shop (categories corner_shop) no_poi = (corner_shop, no_poi)
       | Some l \<Rightarrow>
           l \<in> set labels \<and>
           fst (sortByCategory corner_shop (categories corner_shop) no_poi)
             = add_label l corner_shop \<and>
           bucket l (snd (sortByCategory corner_shop (categories corner_shop) no_poi))
             = bucket l no_poi @ [add_label l corner_shop] \<and>
           (\<forall>l'. l' \<noteq> l \<longrightarrow>
              bucket l' (snd (sortByCategory corner_shop (categories corner_shop) no_poi))
                = bucket l' no_poi)"
    by blast
  with f e show ?thesis by simp
qed

section \<open>Properties of the quantization\<close>

text \<open>The decimal rounding of a non-negative number, and its error.\<close>

lemma decimal_error:
  fixes a :: real
  shows "\<bar>of_int \<lfloor>a * 1000 + 1 / 2\<rfloor> / 1000 - a\<bar> \<le> 1 / 2000"
proof -
  define n where "n = \<lfloor>a * 1000 + 1 / 2\<rfloor>"
  have "of_int n \<le> a * 1000 + 1 / 2" "a * 1000 + 1 / 2 < of_int n + 1"
    unfolding n_def by linarith+
  then have "\<bar>of_int n / 1000 - a\<bar> \<le> 1 / 2000" by linarith
  then show ?thesis by (simp only: n_def)
qed

subsection \<open>Rounding a rounded coordinate\<close>

text \<open>
  Below \<open>2^43\<close> the doubles lie closer together than half a thousandth, so the double
  nearest to a decimal with three places has the same three places. From \<open>2^43\<close> on
  they lie further apart than a thousandth, so the decimal made of a double reads back as
  that double.
\<close>

lemma round_fix_small:
  fixes n :: int
  assumes n: "1 \<le> n" and b: "binade (of_int n / 1000) \<le> 42"
  defines "y \<equiv> to_double (of_int n / 1000)"
  shows "0 < y" "y < 10 ^ 21" "\<lfloor>y * 1000 + 1 / 2\<rfloor> = n"
proof -
  define q :: real where "q = of_int n / 1000"
  have q0: "1 / 1000 \<le> q" using n by (simp add: q_def)
  then have qn: "q \<noteq> 0" by auto
  have "\<bar>y - q\<bar> \<le> quantum q / 2"
    unfolding y_def q_def by (rule to_double_error)
  also have "\<dots> \<le> (1 / 1024) / 2"
    using quantum_small [of q] b by (simp add: q_def)
  finally have err: "\<bar>y - q\<bar> \<le> 1 / 2048" by simp
  show "0 < y" using err q0 by linarith
  have "\<bar>q\<bar> < 2 powr of_int (binade q + 1)"
    using qn by (rule binade_bounds)
  also have "\<dots> \<le> 2 powr of_int 43"
    using b by (intro powr_mono) (auto simp: q_def)
  also have "\<dots> = 2 ^ 43" by (simp add: two_powr_int)
  finally have "q < 8796093022208" by simp
  then have "y < 8796093022209" using err by linarith
  then show "y < 10 ^ 21" by simp
  have "of_int n = q * 1000" by (simp add: q_def)
  then have "of_int n \<le> y * 1000 + 1 / 2" "y * 1000 + 1 / 2 < of_int n + 1"
    using err by linarith+
  then show "\<lfloor>y * 1000 + 1 / 2\<rfloor> = n"
    by (intro floor_unique) simp_all
qed

lemma round_fix_large:
  fixes a :: real
  assumes d: "is_double a" and a0: "0 \<le> a"
    and b: "43 \<le> binade (of_int \<lfloor>a * 1000 + 1 / 2\<rfloor> / 1000)"
  shows "to_double (of_int \<lfloor>a * 1000 + 1 / 2\<rfloor> / 1000) = a"
proof -
  define n where "n = \<lfloor>a * 1000 + 1 / 2\<rfloor>"
  define q :: real where "q = of_int n / 1000"
  define k where "k = binade q"
  have k43: "43 \<le> k" using b by (simp add: k_def q_def n_def)
  have qn: "q \<noteq> 0" using k43 binade_zero by (auto simp: k_def)
  have "0 \<le> n" unfolding n_def using a0 by simp
  then have q0: "0 < q" using qn by (simp add: q_def)
  have err: "\<bar>q - a\<bar> \<le> 1 / 2000"
    unfolding q_def n_def by (rule decimal_error)
  have lo: "2 powr of_int k \<le> q" and hi: "q < 2 powr of_int (k + 1)"
    using binade_bounds [OF qn] q0 by (simp_all add: k_def)
  have big: "(1 :: real) \<le> 2 powr of_int (k - 1)"
  proof -
    have "2 powr of_int 0 \<le> (2 :: real) powr of_int (k - 1)"
      using k43 by (intro powr_mono) auto
    then show ?thesis by simp
  qed
  have split: "(2 :: real) powr of_int k = 2 * 2 powr of_int (k - 1)"
  proof -
    have "(2 :: real) powr of_int k = 2 powr (1 + of_int (k - 1))" by simp
    also have "\<dots> = 2 powr 1 * 2 powr of_int (k - 1)" by (rule powr_add)
    finally show ?thesis by simp
  qed
  have upper: "a < 2 powr of_int (k + 1)"
  proof (rule ccontr)
    assume "\<not> a < 2 powr of_int (k + 1)"
    then have "2 powr of_int (k + 1) \<le> a" by simp
    moreover have p: "(2 :: real) powr of_int (k + 1) = of_int (2 ^ nat (k + 1))"
      using k43 two_powr_int [of "k + 1"] by simp
    ultimately have "of_int (2 ^ nat (k + 1) * 1000) \<le> a * 1000 + 1 / 2"
      by simp
    then have "2 ^ nat (k + 1) * 1000 \<le> n"
      unfolding n_def by (simp only: le_floor_iff)
    then have "of_int (2 ^ nat (k + 1) * 1000) \<le> (of_int n :: real)"
      by (simp only: of_int_le_iff)
    then have "2 powr of_int (k + 1) \<le> q"
      unfolding p q_def by simp
    with hi show False by simp
  qed
  have lower: "2 powr of_int k \<le> a"
  proof (rule ccontr)
    assume "\<not> 2 powr of_int k \<le> a"
    then have less: "a < 2 powr of_int k" by simp
    have "2 powr of_int (k - 1) \<le> a"
      using err lo split big by linarith
    then have ba: "binade a = k - 1"
      using less a0 by (intro binade_eqI) simp_all
    have an: "a \<noteq> 0" using \<open>2 powr of_int (k - 1) \<le> a\<close> big by auto
    have qa: "quantum a = 2 powr of_int (k - 53)"
      using k43 by (simp add: quantum_normal ba)
    have "a / quantum a \<in> \<int>" using d an by (simp add: is_double_alt)
    then obtain m where "a / quantum a = of_int m" by (auto elim: Ints_cases)
    then have m: "a = of_int m * quantum a" by (simp add: nonzero_divide_eq_eq)
    have pk: "(2 :: real) powr of_int k = 2 ^ 53 * quantum a"
    proof -
      have "(2 :: real) powr of_int k = 2 powr (of_int 53 + of_int (k - 53))" by simp
      also have "\<dots> = 2 powr of_int 53 * 2 powr of_int (k - 53)" by (rule powr_add)
      finally show ?thesis by (simp add: qa two_powr_int)
    qed
    have "of_int m * quantum a < 2 ^ 53 * quantum a"
      using less m pk by simp
    then have "of_int m < (2 ^ 53 :: real)" by simp
    then have "m < 2 ^ 53" by simp
    then have "m \<le> 2 ^ 53 - 1" by simp
    then have "(of_int m :: real) \<le> of_int (2 ^ 53 - 1)" by (simp only: of_int_le_iff)
    then have "(of_int m :: real) \<le> 2 ^ 53 - 1" by simp
    then have "of_int m * quantum a \<le> (2 ^ 53 - 1) * quantum a"
      by (intro mult_right_mono) simp_all
    then have "a \<le> 2 powr of_int k - quantum a"
      using m pk by (simp add: left_diff_distrib)
    moreover have "1 / 1024 \<le> quantum a"
    proof -
      have "2 powr of_int (- 10) \<le> quantum a"
        unfolding qa using k43 by (intro powr_mono) auto
      then show ?thesis by (simp add: powr_minus_divide)
    qed
    ultimately show False using err lo by linarith
  qed
  have "binade a = k"
    using lower upper a0 by (intro binade_eqI) simp_all
  then have qq: "quantum a = quantum q"
    by (intro quantum_cong) (simp add: k_def)
  have "(0 :: real) < 2 powr of_int k" by simp
  with lower have an: "a \<noteq> 0" by linarith
  have "a / quantum q \<in> \<int>"
    using d an by (simp add: is_double_alt qq [symmetric])
  moreover have "\<bar>a - q\<bar> < quantum q / 2"
  proof -
    have "1 / 512 \<le> quantum q"
      using k43 by (intro quantum_large) (simp add: k_def)
    with err show ?thesis by linarith
  qed
  ultimately have "to_double q = a"
    using qn by (intro to_double_near)
  then show ?thesis by (simp add: q_def n_def)
qed

lemma toFixed_sgn: "toFixed x f = sgn x * toFixed \<bar>x\<bar> f"
proof (cases "x = 0")
  case True
  then show ?thesis by (simp add: toFixed_def)
next
  case False
  then have "sgn \<bar>x\<bar> = 1" by simp
  then show ?thesis
    by (simp add: toFixed_def mult_sgn_abs)
qed

lemma roundCord_sgn: "roundCord x f = sgn x * roundCord \<bar>x\<bar> f"
  unfolding roundCord_def parseFloat_def
  by (subst toFixed_sgn) (rule to_double_sgn)

lemma roundCord_zero [simp]: "roundCord 0 f = 0"
  by (simp add: roundCord_def parseFloat_def toFixed_def)

lemma roundCord_fix_nonneg:
  assumes d: "is_double a" and a0: "0 \<le> a"
  shows "roundCord (roundCord a 3) 3 = roundCord a 3 \<and> 0 \<le> roundCord a 3"
proof (cases "10 ^ 21 \<le> a")
  case True
  then have "roundCord a 3 = a"
    using d by (simp add: roundCord_def parseFloat_def toFixed_def to_double_id)
  then show ?thesis using a0 by simp
next
  case False
  define n where "n = \<lfloor>a * 1000 + 1 / 2\<rfloor>"
  define q :: real where "q = of_int n / 1000"
  have n0: "0 \<le> n" unfolding n_def using a0 by simp
  have tf: "toFixed a 3 = sgn a * q"
    using False a0 by (simp add: toFixed_def n_def q_def)
  show ?thesis
  proof (cases "n = 0 \<or> a = 0")
    case True
    then have "toFixed a 3 = 0" using tf by (auto simp: q_def)
    then have "roundCord a 3 = 0" by (simp add: roundCord_def parseFloat_def)
    then show ?thesis by simp
  next
    case nz: False
    then have n1: "1 \<le> n" and "0 < a" using n0 a0 by auto
    then have y: "roundCord a 3 = to_double q"
      using tf by (simp add: roundCord_def parseFloat_def)
    show ?thesis
    proof (cases "binade q \<le> 42")
      case True
      from round_fix_small [OF n1] True
      have "0 < to_double q" "to_double q < 10 ^ 21" "\<lfloor>to_double q * 1000 + 1 / 2\<rfloor> = n"
        by (simp_all add: q_def)
      then have "toFixed (to_double q) 3 = q"
        by (simp add: toFixed_def q_def)
      then have "roundCord (to_double q) 3 = to_double q"
        by (simp add: roundCord_def parseFloat_def)
      with \<open>0 < to_double q\<close> show ?thesis by (simp add: y)
    next
      case False
      then have "43 \<le> binade (of_int \<lfloor>a * 1000 + 1 / 2\<rfloor> / 1000)"
        by (simp add: q_def n_def)
      from round_fix_large [OF d a0 this] have "to_double q = a"
        by (simp add: q_def n_def)
      then show ?thesis using a0 by (simp add: y)
    qed
  qed
qed

lemma roundCord_idem:
  assumes "is_double x"
  shows "roundCord (roundCord x 3) 3 = roundCord x 3"
proof -
  define y where "y = roundCord \<bar>x\<bar> 3"
  have fx: "roundCord y 3 = y" and y0: "0 \<le> y"
    using roundCord_fix_nonneg [of "\<bar>x\<bar>"] assms by (simp_all add: is_double_abs y_def)
  have r: "roundCord x 3 = sgn x * y"
    unfolding y_def by (rule roundCord_sgn)
  consider "x < 0" | "x = 0" | "0 < x" by linarith
  then have "roundCord (sgn x * y) 3 = sgn x * y"
  proof cases
    case 1
    have "roundCord (- y) 3 = sgn (- y) * roundCord \<bar>- y\<bar> 3"
      by (rule roundCord_sgn)
    also have "\<dots> = sgn (- y) * y" using y0 fx by simp
    also have "\<dots> = - y" using y0 by (cases "y = 0") simp_all
    finally show ?thesis using 1 by simp
  next
    case 2
    then show ?thesis by simp
  next
    case 3
    then show ?thesis using fx by simp
  qed
  then show ?thesis by (simp add: r)
qed

lemma roundCord_example: "roundCord (to_double 12.34567) 3 = to_double 12.346"
proof -
  define x :: real where "x = to_double 12.34567"
  have "\<bar>x - 12.34567\<bar> \<le> 2 powr of_int (4 - 54)"
    unfolding x_def by (rule to_double_close) (simp_all add: two_powr_int)
  also have "(2 :: real) powr of_int (4 - 54) = 1 / 2 ^ 50"
    by (simp add: powr_minus_divide)
  finally have err: "\<bar>x - 12.34567\<bar> \<le> 1 / 1125899906842624" by simp
  from err have "- (1 / 1125899906842624) \<le> x - 12.34567" "x - 12.34567 \<le> 1 / 1125899906842624"
    unfolding abs_le_iff by simp_all
  then have "0 < x" "x < 13" by simp_all
  then have pos: "0 < x" "\<bar>x\<bar> < 10 ^ 21" by simp_all
  have "of_int 12346 \<le> x * 1000 + 1 / 2" "x * 1000 + 1 / 2 < of_int 12346 + 1"
    using \<open>- (1 / 1125899906842624) \<le> x - 12.34567\<close>
      \<open>x - 12.34567 \<le> 1 / 1125899906842624\<close>
    by simp_all
  then have "\<lfloor>x * 1000 + 1 / 2\<rfloor> = 12346" by (rule floor_unique)
  then have "toFixed x 3 = 12.346"
    using pos by (simp add: toFixed_def)
  then show ?thesis
    unfolding roundCord_def parseFloat_def x_def by (rule arg_cong)
qed

lemma toFixed_error:
  assumes "\<bar>x\<bar> < 10 ^ 21"
  shows "\<bar>toFixed x 3 - x\<bar> \<le> 1 / 2000"
    and "\<exists>n :: int. toFixed x 3 = of_int n / 1000"
proof -
  define n where "n = \<lfloor>\<bar>x\<bar> * 1000 + 1 / 2\<rfloor>"
  have tf: "toFixed x 3 = sgn x * (of_int n / 1000)"
    using assms by (simp add: toFixed_def n_def)
  have e: "\<bar>of_int n / 1000 - \<bar>x\<bar>\<bar> \<le> 1 / 2000"
    unfolding n_def by (rule decimal_error)
  consider "x < 0" | "x = 0" | "0 < x" by linarith
  then show "\<bar>toFixed x 3 - x\<bar> \<le> 1 / 2000"
  proof cases
    case 1
    then have "toFixed x 3 - x = - (of_int n / 1000 - \<bar>x\<bar>)" by (simp add: tf)
    then show ?thesis using e by (simp only: abs_minus_cancel)
  next
    case 2
    then show ?thesis by (simp add: toFixed_def)
  next
    case 3
    then have "toFixed x 3 - x = of_int n / 1000 - \<bar>x\<bar>" by (simp add: tf)
    then show ?thesis using e by (simp only:)
  qed
  consider "x < 0" | "x = 0" | "0 < x" by linarith
  then show "\<exists>n :: int. toFixed x 3 = of_int n / 1000"
  proof cases
    case 1
    then have "toFixed x 3 = of_int (- n) / 1000" by (simp add: tf)
    then show ?thesis by blast
  next
    case 2
    then have "toFixed x 3 = of_int 0 / 1000" by (simp add: toFixed_def)
    then show ?thesis by blast
  next
    case 3
    then have "toFixed x 3 = of_int n / 1000" by (simp add: tf)
    then show ?thesis by blast
  qed
qed

lemma roundCord_accuracy:
  assumes "\<bar>x\<bar> \<le> 180"
  shows "\<bar>roundCord x 3 - x\<bar> \<le> 1 / 2000 + 1 / 2 ^ 46"
    and "\<exists>n :: int. \<bar>roundCord x 3 - of_int n / 1000\<bar> \<le> 1 / 2 ^ 46"
    and "is_double (roundCord x 3)"
proof -
  define v where "v = toFixed x 3"
  have x21: "\<bar>x\<bar> < 10 ^ 21" using assms by simp
  have ev: "\<bar>v - x\<bar> \<le> 1 / 2000" unfolding v_def using x21 by (rule toFixed_error)
  obtain n :: int where n: "v = of_int n / 1000"
    unfolding v_def using toFixed_error(2) [OF x21] by blast
  have b: "\<bar>v\<bar> < 256" using ev assms by linarith
  have ed: "\<bar>to_double v - v\<bar> \<le> 1 / 2 ^ 46"
  proof (cases "v = 0")
    case True
    then show ?thesis by simp
  next
    case False
    have "\<bar>to_double v - v\<bar> \<le> 2 powr of_int (8 - 54)"
      using False b by (intro to_double_close) (simp_all add: two_powr_int)
    also have "(2 :: real) powr of_int (8 - 54) = 1 / 2 ^ 46"
      by (simp add: powr_minus_divide)
    finally show ?thesis .
  qed
  have r: "roundCord x 3 = to_double v"
    by (simp add: roundCord_def parseFloat_def v_def)
  show "\<bar>roundCord x 3 - x\<bar> \<le> 1 / 2000 + 1 / 2 ^ 46"
    unfolding r using ed ev by linarith
  have "\<bar>roundCord x 3 - of_int n / 1000\<bar> \<le> 1 / 2 ^ 46"
    unfolding r using ed by (simp only: n)
  then show "\<exists>n :: int. \<bar>roundCord x 3 - of_int n / 1000\<bar> \<le> 1 / 2 ^ 46" by blast
  have "\<bar>v\<bar> < 2 ^ 1023"
  proof -
    have "(2 :: real) ^ 8 \<le> 2 ^ 1023" by (intro power_increasing) simp_all
    with b show ?thesis by simp
  qed
  then show "is_double (roundCord x 3)" unfolding r by (rule is_double_to_double)
qed

lemma to_double_12346: "\<bar>to_double 12.346 - 12.346\<bar> \<le> 1 / 2 ^ 50"
proof -
  have "\<bar>to_double 12.346 - 12.346\<bar> \<le> 2 powr of_int (4 - 54)"
    by (rule to_double_close) (simp_all add: two_powr_int)
  also have "(2 :: real) powr of_int (4 - 54) = 1 / 2 ^ 50"
    by (simp add: powr_minus_divide)
  finally show ?thesis .
qed

lemma to_double_1234567: "\<bar>to_double 12.34567 - 12.34567\<bar> \<le> 1 / 2 ^ 50"
proof -
  have "\<bar>to_double 12.34567 - 12.34567\<bar> \<le> 2 powr of_int (4 - 54)"
    by (rule to_double_close) (simp_all add: two_powr_int)
  also have "(2 :: real) powr of_int (4 - 54) = 1 / 2 ^ 50"
    by (simp add: powr_minus_divide)
  finally show ?thesis .
qed

text \<open>
  Claim C5. Rounding to three decimals is a function of the coordinate alone. For every
  finite double, rounding the rounded coordinate returns it unchanged. For a coordinate
  of a magnitude up to 180, the rounded coordinate is a double within
  \<open>2^(-46)\<close> of a decimal with three places and within half a thousandth and
  \<open>2^(-46)\<close> of the coordinate. The double written 12.34567 is rounded to the double
  written 12.346, which is within \<open>2^(-50)\<close> of 12.346. Two pairs of coordinates
  have the same cache key exactly when their rounded values agree.
\<close>

theorem roundCord_idempotent:
  "(\<forall>x x'. x = x' \<longrightarrow> roundCord x 3 = roundCord x' 3) \<and>
   (\<forall>x. is_double x \<longrightarrow> roundCord (roundCord x 3) 3 = roundCord x 3) \<and>
   (\<forall>x. \<bar>x\<bar> \<le> 180 \<longrightarrow>
      is_double (roundCord x 3) \<and>
      \<bar>roundCord x 3 - x\<bar> \<le> 1 / 2000 + 1 / 2 ^ 46 \<and>
      (\<exists>n :: int. \<bar>roundCord x 3 - of_int n / 1000\<bar> \<le> 1 / 2 ^ 46)) \<and>
   \<bar>to_double 12.34567 - 12.34567\<bar> \<le> 1 / 2 ^ 50 \<and>
   roundCord (to_double 12.34567) 3 = to_double 12.346 \<and>
   \<bar>roundCord (to_double 12.34567) 3 - 12.346\<bar> \<le> 1 / 2 ^ 50 \<and>
   (\<forall>la lo la' lo'.
      (cacheKey la lo = cacheKey la' lo') =
      (roundCord la 3 = roundCord la' 3 \<and> roundCord lo 3 = roundCord lo' 3))"
proof (intro conjI allI impI)
  show "roundCord x 3 = roundCord x' 3" if "x = x'" for x x'
    using that by simp
  show "roundCord (roundCord x 3) 3 = roundCord x 3" if "is_double x" for x
    using that by (rule roundCord_idem)
  show "is_double (roundCord x 3)" if "\<bar>x\<bar> \<le> 180" for x
    using that by (rule roundCord_accuracy)
  show "\<bar>roundCord x 3 - x\<bar> \<le> 1 / 2000 + 1 / 2 ^ 46" if "\<bar>x\<bar> \<le> 180" for x
    using that by (rule roundCord_accuracy)
  show "\<exists>n :: int. \<bar>roundCord x 3 - of_int n / 1000\<bar> \<le> 1 / 2 ^ 46" if "\<bar>x\<bar> \<le> 180" for x
    using that by (rule roundCord_accuracy)
  show "\<bar>to_double 12.34567 - 12.34567\<bar> \<le> 1 / 2 ^ 50"
    by (rule to_double_1234567)
  show "roundCord (to_double 12.34567) 3 = to_double 12.346"
    by (rule roundCord_example)
  show "\<bar>roundCord (to_double 12.34567) 3 - 12.346\<bar> \<le> 1 / 2 ^ 50"
    unfolding roundCord_example by (rule to_double_12346)
  show "(cacheKey la lo = cacheKey la' lo') =
      (roundCord la 3 = roundCord la' 3 \<and> roundCord lo 3 = roundCord lo' 3)"
    for la lo la' lo'
    by (simp add: cacheKey_def)
qed

text \<open>
  The witness for claim C5: the doubles written 12.34567 and 12.346 are rounded to the
  same value and share a cache key at the longitude -75; the latitude 40.0004 is
  rounded to 40, and the double written 12.3454 is rounded to another value and has
  another key.
\<close>

theorem roundCord_idempotent_witness:
  "((12.34567 :: real) = 12.34567 \<and> roundCord 12.34567 3 = roundCord 12.34567 3) \<and>
   (is_double (to_double 12.34567) \<and>
    roundCord (roundCord (to_double 12.34567) 3) 3 = roundCord (to_double 12.34567) 3) \<and>
   (\<bar>40.0004 :: real\<bar> \<le> 180 \<and> roundCord 40.0004 3 = 40 \<and>
    is_double (roundCord 40.0004 3) \<and>
    \<bar>roundCord 40.0004 3 - 40.0004\<bar> \<le> 1 / 2000 + 1 / 2 ^ 46) \<and>
   (roundCord (to_double 12.34567) 3 = roundCord (to_double 12.346) 3 \<and>
    cacheKey (to_double 12.34567) (- 75) = cacheKey (to_double 12.346) (- 75)) \<and>
   (roundCord (to_double 12.3454) 3 \<noteq> roundCord (to_double 12.34567) 3 \<and>
    cacheKey (to_double 12.3454) (- 75) \<noteq> cacheKey (to_double 12.34567) (- 75))"
proof -
  note t = roundCord_idempotent
  have d: "is_double (to_double 12.34567)"
    by (rule is_double_to_double) simp
  from t d have i: "roundCord (roundCord (to_double 12.34567) 3) 3
      = roundCord (to_double 12.34567) 3"
    by blast
  from t have e: "roundCord (to_double 12.34567) 3 = to_double 12.346"
    by blast
  from i e have s: "roundCord (to_double 12.34567) 3 = roundCord (to_double 12.346) 3"
    by simp
  note k = t [THEN conjunct2, THEN conjunct2, THEN conjunct2, THEN conjunct2, THEN conjunct2,
      THEN conjunct2, rule_format]
  from s have k1: "cacheKey (to_double 12.34567) (- 75) = cacheKey (to_double 12.346) (- 75)"
    by (simp add: k)
  have b: "\<bar>40.0004 :: real\<bar> \<le> 180" by simp
  note a = t [THEN conjunct2, THEN conjunct2, THEN conjunct1, rule_format, OF b]
  have v: "roundCord 40.0004 3 = 40"
    by (simp add: roundCord_def parseFloat_def toFixed_def)
  have "\<bar>to_double 12.3454\<bar> \<le> 180"
  proof -
    have "\<bar>to_double 12.3454 - 12.3454\<bar> \<le> 2 powr of_int (4 - 54)"
      by (rule to_double_close) (simp_all add: two_powr_int)
    also have "(2 :: real) powr of_int (4 - 54) = 1 / 2 ^ 50"
      by (simp add: powr_minus_divide)
    finally have c: "\<bar>to_double 12.3454 - 12.3454\<bar> \<le> 1 / 2 ^ 50" .
    then have "- (1 / 2 ^ 50) \<le> to_double 12.3454 - 12.3454"
      "to_double 12.3454 - 12.3454 \<le> 1 / 2 ^ 50"
      unfolding abs_le_iff by simp_all
    then show ?thesis by simp
  qed
  note a2 = t [THEN conjunct2, THEN conjunct2, THEN conjunct1, rule_format, OF this]
  have n: "roundCord (to_double 12.3454) 3 \<noteq> roundCord (to_double 12.34567) 3"
  proof
    assume eq: "roundCord (to_double 12.3454) 3 = roundCord (to_double 12.34567) 3"
    have c: "\<bar>to_double 12.3454 - 12.3454\<bar> \<le> 1 / 2 ^ 50"
    proof -
      have "\<bar>to_double 12.3454 - 12.3454\<bar> \<le> 2 powr of_int (4 - 54)"
        by (rule to_double_close) (simp_all add: two_powr_int)
      also have "(2 :: real) powr of_int (4 - 54) = 1 / 2 ^ 50"
        by (simp add: powr_minus_divide)
      finally show ?thesis .
    qed
    have u1: "\<bar>roundCord (to_double 12.3454) 3 - to_double 12.3454\<bar> \<le> 1 / 2000 + 1 / 2 ^ 46"
      using a2 by blast
    have u2: "\<bar>roundCord (to_double 12.34567) 3 - 12.346\<bar> \<le> 1 / 2 ^ 50"
      using t by blast
    from c have c': "- (1 / 2 ^ 50) \<le> to_double 12.3454 - 12.3454"
      "to_double 12.3454 - 12.3454 \<le> 1 / 2 ^ 50"
      unfolding abs_le_iff by simp_all
    from u1 have v1: "roundCord (to_double 12.3454) 3 - to_double 12.3454 \<le> 1 / 2000 + 1 / 2 ^ 46"
      unfolding abs_le_iff by simp
    from u2 have v2: "- (1 / 2 ^ 50) \<le> roundCord (to_double 12.34567) 3 - 12.346"
      unfolding abs_le_iff by simp
    from c' v1 v2 eq show False by simp
  qed
  then have k2: "cacheKey (to_double 12.3454) (- 75) \<noteq> cacheKey (to_double 12.34567) (- 75)"
    by (simp add: k)
  from a have a': "is_double (roundCord 40.0004 3)"
    "\<bar>roundCord 40.0004 3 - 40.0004\<bar> \<le> 1 / 2000 + 1 / 2 ^ 46"
    by blast+
  from d i b v a' s k1 n k2 show ?thesis
    by (intro conjI) (simp_all only: simp_thms)
qed

section \<open>Properties of the route\<close>

lemma route_fast_hit:
  "redis_get (cache s) (now r) (cacheKey (lat r) (lon r)) = Some v \<Longrightarrow>
   nearby_places r s = (\<lparr>status = 200, body = Json v\<rparr>, s)"
  by (simp add: nearby_places_def)

lemma route_durable_hit:
  "redis_get (cache s) (now r) (cacheKey (lat r) (lon r)) = None \<Longrightarrow>
   mongo_find r s = Inr (Some d) \<Longrightarrow>
   nearby_places r s =
     (\<lparr>status = 200, body = Json (Document d)\<rparr>,
      s\<lparr>cache := redis_set_ex (cache s) (now r) (cacheKey (lat r) (lon r))
                    (Document d) (60 * 60 * 6)\<rparr>)"
  by (simp add: nearby_places_def)

lemma route_miss:
  "cache_miss r s \<Longrightarrow> nearby_places r s = unique_lookup r s"
  by (auto simp: nearby_places_def cache_miss_def split: option.splits sum.splits)

lemma unique_lookup_denied:
  "redis_get (counters s) (now r) (ip r) = Some c \<Longrightarrow> 5 \<le> c \<Longrightarrow>
   unique_lookup r s = (quota_exceeded, s)"
  by (simp add: unique_lookup_def checkUniqueRequestLimit_def)

lemma increment_absent:
  "redis_get store t k = None \<Longrightarrow>
   incrementUniqueRequestCount store t t' k = Inr (store(k \<mapsto> (1, Some (t' + 3600000))))"
  by (simp add: incrementUniqueRequestCount_def redis_set_ex_def)

lemma redis_get_live:
  "store k = Some (c, x) \<Longrightarrow> live t (c, x) \<Longrightarrow> redis_get store t k = Some c"
  by (simp add: redis_get_def)

lemma increment_present:
  "store k = Some (c, x) \<Longrightarrow> live t (c, x) \<Longrightarrow> live t' (c, x) \<Longrightarrow> c \<noteq> int64_max \<Longrightarrow>
   incrementUniqueRequestCount store t t' k = Inr (store(k \<mapsto> (c + 1, x)))"
  by (simp add: incrementUniqueRequestCount_def redis_get_def redis_incr_def)

lemma increment_expired:
  "store k = Some (c, x) \<Longrightarrow> live t (c, x) \<Longrightarrow> \<not> live t' (c, x) \<Longrightarrow>
   incrementUniqueRequestCount store t t' k = Inr (store(k \<mapsto> (1, None)))"
  by (simp add: incrementUniqueRequestCount_def redis_get_def redis_incr_def)

lemma live_earlier: "live t' e \<Longrightarrow> t \<le> t' \<Longrightarrow> live t e"
  by (auto simp: live_def split: option.splits)

text \<open>After the counter is written, the rest of the block leaves the counters alone.\<close>

lemma unique_lookup_admitted:
  assumes "checkUniqueRequestLimit (counters s) (now r) (ip r)"
    and "incrementUniqueRequestCount (counters s) (now r) (now r + writeDelay r) (ip r)
      = Inr counters'"
  shows "counters (snd (unique_lookup r s)) = counters'"
    and "status (fst (unique_lookup r s)) \<noteq> 429"
  using assms
  by (auto simp: unique_lookup_def Let_def internal_error_def mongo_insert_def
      split: prod.splits sum.splits option.splits)

lemma serve_Cons:
  "fst (serve (r # rs) s) = fst (nearby_places r s) # fst (serve rs (snd (nearby_places r s)))"
  "snd (serve (r # rs) s) = snd (serve rs (snd (nearby_places r s)))"
  by (auto split: prod.splits)

lemma length_serve: "length (fst (serve rs s)) = length rs"
proof (induction rs arbitrary: s)
  case Nil
  show ?case by simp
next
  case (Cons r rs)
  then show ?case by (simp only: serve_Cons list.size)
qed

lemma serve_in_window:
  assumes "counters s k = Some (c, Some x)"
    and "\<forall>r\<in>set rs. ip r = k \<and> now r + writeDelay r < x"
    and "all_miss rs s"
  shows "(\<forall>res\<in>set (take (nat (5 - c)) (fst (serve rs s))). status res \<noteq> 429) \<and>
         (\<forall>res\<in>set (drop (nat (5 - c)) (fst (serve rs s))). res = quota_exceeded) \<and>
         counters (snd (serve rs s)) k = Some (max c (min 5 (c + int (length rs))), Some x)"
  using assms
proof (induction rs arbitrary: s c)
  case Nil
  then show ?case by simp
next
  case (Cons r rs)
  from Cons.prems have r: "ip r = k" "now r + writeDelay r < x" and miss: "cache_miss r s"
    and rest: "all_miss rs (snd (nearby_places r s))"
    and rs: "\<forall>r\<in>set rs. ip r = k \<and> now r + writeDelay r < x"
    by auto
  have lv: "live (now r) (c, Some x)" "live (now r + writeDelay r) (c, Some x)"
    using r by (simp_all add: live_def)
  have get: "redis_get (counters s) (now r) (ip r) = Some c"
    using Cons.prems(1) lv(1) r(1) by (simp add: redis_get_live)
  have step: "nearby_places r s = unique_lookup r s"
    using miss by (rule route_miss)
  show ?case
  proof (cases "5 \<le> c")
    case True
    then have den: "nearby_places r s = (quota_exceeded, s)"
      using get step by (simp add: unique_lookup_denied)
    from True have n0: "nat (5 - c) = 0" by simp
    from Cons.IH [of s c] Cons.prems(1) rs rest den True
    show ?thesis
      unfolding serve_Cons n0 by (auto simp: max_def min_def)
  next
    case False
    then have c: "c < 5" by simp
    have chk: "checkUniqueRequestLimit (counters s) (now r) (ip r)"
      using get c by (simp add: checkUniqueRequestLimit_def)
    have inc: "incrementUniqueRequestCount (counters s) (now r) (now r + writeDelay r) (ip r)
        = Inr ((counters s)(k \<mapsto> (c + 1, Some x)))"
      using increment_present [of "counters s" k c "Some x" "now r" "now r + writeDelay r"]
        Cons.prems(1) lv c r(1)
      by (simp add: int64_max_def)
    have cnt: "counters (snd (nearby_places r s)) k = Some (c + 1, Some x)"
      and st: "status (fst (nearby_places r s)) \<noteq> 429"
      using unique_lookup_admitted [OF chk inc] step by simp_all
    have n: "nat (5 - c) = Suc (nat (5 - (c + 1)))" using c by simp
    from Cons.IH [OF cnt rs rest] st c
    show ?thesis
      unfolding serve_Cons n by (auto simp: max_def min_def)
  qed
qed

lemma serve_fresh_window:
  assumes fresh: "redis_get (counters s) (now r) (ip r) = None"
    and same: "\<forall>q\<in>set rs. ip q = ip r \<and>
        now q + writeDelay q < now r + writeDelay r + 3600000"
    and miss: "all_miss (r # rs) s"
  shows "(\<forall>res\<in>set (take 5 (fst (serve (r # rs) s))). status res \<noteq> 429) \<and>
         (\<forall>res\<in>set (drop 5 (fst (serve (r # rs) s))). res = quota_exceeded) \<and>
         counters (snd (serve (r # rs) s)) (ip r)
           = Some (min 5 (1 + int (length rs)), Some (now r + writeDelay r + 3600000))"
proof -
  have step: "nearby_places r s = unique_lookup r s"
    using miss by (simp add: route_miss)
  have chk: "checkUniqueRequestLimit (counters s) (now r) (ip r)"
    using fresh by (simp add: checkUniqueRequestLimit_def)
  have inc: "incrementUniqueRequestCount (counters s) (now r) (now r + writeDelay r) (ip r)
      = Inr ((counters s)(ip r \<mapsto> (1, Some (now r + writeDelay r + 3600000))))"
    using fresh by (rule increment_absent)
  have cnt: "counters (snd (nearby_places r s)) (ip r)
      = Some (1, Some (now r + writeDelay r + 3600000))"
    and st: "status (fst (nearby_places r s)) \<noteq> 429"
    using unique_lookup_admitted [OF chk inc] step by simp_all
  have rest: "all_miss rs (snd (nearby_places r s))" using miss by simp
  from serve_in_window [OF cnt same rest] st
  show ?thesis
    unfolding serve_Cons by (auto simp: max_def min_def)
qed

lemma increment_other:
  "incrementUniqueRequestCount store t t' k' = Inr store' \<Longrightarrow> k \<noteq> k' \<Longrightarrow> store' k = store k"
  by (auto simp: incrementUniqueRequestCount_def redis_incr_def redis_set_ex_def
      split: option.splits if_splits)

lemma unique_lookup_counters:
  "counters (snd (unique_lookup r s)) =
     (if checkUniqueRequestLimit (counters s) (now r) (ip r)
      then (case incrementUniqueRequestCount (counters s) (now r) (now r + writeDelay r)
                   (ip r) of
              Inl err \<Rightarrow> counters s | Inr counters' \<Rightarrow> counters')
      else counters s)"
  by (auto simp: unique_lookup_def Let_def mongo_insert_def
      split: prod.splits sum.splits option.splits)

lemma route_counters:
  "counters (snd (nearby_places r s)) =
     (if cache_miss r s then counters (snd (unique_lookup r s)) else counters s)"
  by (auto simp: nearby_places_def cache_miss_def redis_set_ex_def
      split: option.splits sum.splits)

lemma route_other_client:
  assumes "ip r \<noteq> k \<or> \<not> cache_miss r s"
  shows "counters (snd (nearby_places r s)) k = counters s k"
proof (cases "cache_miss r s")
  case False
  then show ?thesis by (simp add: route_counters)
next
  case True
  with assms have k: "k \<noteq> ip r" by auto
  show ?thesis
    using True k increment_other [of "counters s" "now r" "now r + writeDelay r" "ip r" _ k]
    by (auto simp: route_counters unique_lookup_counters split: sum.splits)
qed

lemma admitted_live:
  assumes "counters s k = Some (c, Some x)"
    and "\<forall>r\<in>set rs. now r + writeDelay r < x"
  shows "admitted_by k rs s \<le> nat (5 - c)"
  using assms
proof (induction rs arbitrary: s c)
  case Nil
  then show ?case by simp
next
  case (Cons r rs)
  from Cons.prems have t: "now r + writeDelay r < x"
    and rs: "\<forall>r\<in>set rs. now r + writeDelay r < x" by auto
  show ?case
  proof (cases "ip r = k \<and> cache_miss r s")
    case False
    then have "counters (snd (nearby_places r s)) k = Some (c, Some x)"
      using Cons.prems(1) route_other_client [of r k s] by auto
    from Cons.IH [OF this rs] False show ?thesis by auto
  next
    case True
    then have step: "nearby_places r s = unique_lookup r s"
      by (simp add: route_miss)
    have lv: "live (now r) (c, Some x)" "live (now r + writeDelay r) (c, Some x)"
      using t by (simp_all add: live_def)
    have get: "redis_get (counters s) (now r) (ip r) = Some c"
      using Cons.prems(1) lv(1) True by (simp add: redis_get_live)
    show ?thesis
    proof (cases "5 \<le> c")
      case c: True
      then have "nearby_places r s = (quota_exceeded, s)"
        using get step by (simp add: unique_lookup_denied)
      with Cons.IH [OF Cons.prems(1) rs] show ?thesis by simp
    next
      case c: False
      have chk: "checkUniqueRequestLimit (counters s) (now r) (ip r)"
        using get c by (simp add: checkUniqueRequestLimit_def)
      have inc: "incrementUniqueRequestCount (counters s) (now r) (now r + writeDelay r) (ip r)
          = Inr ((counters s)(k \<mapsto> (c + 1, Some x)))"
        using increment_present [of "counters s" k c "Some x" "now r" "now r + writeDelay r"]
          Cons.prems(1) lv c True
        by (simp add: int64_max_def)
      have "counters (snd (nearby_places r s)) k = Some (c + 1, Some x)"
        using unique_lookup_admitted(1) [OF chk inc] step by simp
      from Cons.IH [OF this rs] have "admitted_by k rs (snd (nearby_places r s))
          \<le> nat (5 - (c + 1))" .
      moreover have "nat (5 - c) = Suc (nat (5 - (c + 1)))" using c by simp
      ultimately show ?thesis by simp
    qed
  qed
qed

lemma admitted_window:
  assumes "redis_get (counters s) t0 k = None"
    and "\<forall>r\<in>set rs. t0 \<le> now r \<and> now r + writeDelay r < t0 + 3600000"
  shows "admitted_by k rs s \<le> 5"
  using assms
proof (induction rs arbitrary: s)
  case Nil
  then show ?case by simp
next
  case (Cons r rs)
  from Cons.prems have t: "t0 \<le> now r" "now r + writeDelay r < t0 + 3600000"
    and rs: "\<forall>r\<in>set rs. t0 \<le> now r \<and> now r + writeDelay r < t0 + 3600000" by auto
  have dead: "redis_get (counters s) (now r) k = None"
    using Cons.prems(1) t(1)
    by (auto simp: redis_get_def live_def split: option.splits if_splits)
  show ?case
  proof (cases "ip r = k \<and> cache_miss r s")
    case False
    then have "counters (snd (nearby_places r s)) k = counters s k"
      using route_other_client [of r k s] by auto
    then have "redis_get (counters (snd (nearby_places r s))) t0 k = None"
      using Cons.prems(1) by (simp add: redis_get_def)
    from Cons.IH [OF this rs] False show ?thesis by auto
  next
    case True
    then have step: "nearby_places r s = unique_lookup r s"
      by (simp add: route_miss)
    have chk: "checkUniqueRequestLimit (counters s) (now r) (ip r)"
      using dead True by (simp add: checkUniqueRequestLimit_def)
    have inc: "incrementUniqueRequestCount (counters s) (now r) (now r + writeDelay r) (ip r)
        = Inr ((counters s)(k \<mapsto> (1, Some (now r + writeDelay r + 3600000))))"
      using increment_absent [of "counters s" "now r" k "now r + writeDelay r"] dead True
      by simp
    have cnt: "counters (snd (nearby_places r s)) k
        = Some (1, Some (now r + writeDelay r + 3600000))"
      using unique_lookup_admitted(1) [OF chk inc] step by simp
    have "\<forall>q\<in>set rs. now q + writeDelay q < now r + writeDelay r + 3600000"
      using rs t(1) by auto
    from admitted_live [OF cnt this] show ?thesis by simp
  qed
qed

text \<open>Unfolding the route on concrete requests.\<close>

lemmas route_defs = nearby_places_def unique_lookup_def cache_miss_def mongo_find_def
  mongo_insert_def findOne_def cacheKey_def roundCord_def parseFloat_def toFixed_def
  redis_get_def redis_set_ex_def redis_incr_def live_def checkUniqueRequestLimit_def
  incrementUniqueRequestCount_def getNearbyPlaces_def categorize_def error_member_def
  init_def int64_max_def

lemma late_state_eq:
  "late_state =
     \<lparr>counters = [''203.0.113.7'' \<mapsto> (1, Some 3600000)],
      cache = [(1, - 75) \<mapsto> (Envelope \<lparr>forCoordinates = (1, - 75), requestedBy = ''203.0.113.7'',
                 POIbyCategory = Sorted no_poi\<rparr>, Some 21600000)],
      savedPlaces = [\<lparr>forCoordinates = (1, - 75), requestedBy = ''203.0.113.7'',
                 POIbyCategory = Sorted no_poi, generalCoordinates = (1, - 75),
                 createdAt = 0, expiresAt = 345600000\<rparr>],
      upstream = [PlacesRequest (- 75) 1, IsochroneRequest (- 75) 1]\<rparr>"
  by (simp add: late_state_def visit_def route_defs Let_def)

lemma fresh_run:
  "redis_get (counters init) (now (visit 0 1)) (ip (visit 0 1)) = None \<and>
   (\<forall>q\<in>set five_more. ip q = ip (visit 0 1) \<and>
      now q + writeDelay q < now (visit 0 1) + writeDelay (visit 0 1) + 3600000) \<and>
   all_miss (visit 0 1 # five_more) init"
  by (simp add: five_more_def visit_def route_defs Let_def)

lemma spent_state_facts:
  "redis_get (counters spent_state) 6000 ''203.0.113.7'' = Some 5 \<and>
   redis_get (cache spent_state) (now (visit 6000 1))
      (cacheKey (lat (visit 6000 1)) (lon (visit 6000 1)))
      = Some (Envelope \<lparr>forCoordinates = (1, - 75), requestedBy = ''203.0.113.7'',
                 POIbyCategory = Sorted no_poi\<rparr>)"
  by (simp add: spent_state_def five_more_def visit_def route_defs Let_def)

lemma late_state_hit:
  "redis_get (cache late_state) (now (visit 5 1)) (cacheKey (lat (visit 5 1)) (lon (visit 5 1)))
      = Some (Envelope \<lparr>forCoordinates = (1, - 75), requestedBy = ''203.0.113.7'',
                 POIbyCategory = Sorted no_poi\<rparr>)"
  unfolding late_state_eq by (simp add: visit_def route_defs)

lemma late_state_expired:
  "redis_get (cache late_state) (now (visit 21600000 1))
       (cacheKey (lat (visit 21600000 1)) (lon (visit 21600000 1))) = None \<and>
   \<not> mongoFindFails (visit 21600000 1) \<and>
   findOne (savedPlaces late_state)
       (cacheKey (lat (visit 21600000 1)) (lon (visit 21600000 1))) = Some stored_doc"
  unfolding late_state_eq by (simp add: visit_def route_defs stored_doc_def)

lemma findOne_key: "findOne docs key = Some d \<Longrightarrow> generalCoordinates d = key"
  by (auto simp: findOne_def dest: find_Some_iff [THEN iffD1])

lemma unique_lookup_find_flag:
  "unique_lookup (r\<lparr>mongoFindFails := b\<rparr>) s = unique_lookup r s"
  by (simp add: unique_lookup_def mongo_insert_def Let_def
      split: prod.splits sum.splits option.splits)

lemma unique_lookup_insert_flag:
  "fst (unique_lookup (r\<lparr>mongoInsertFails := b\<rparr>) s) = fst (unique_lookup r s)"
  by (simp add: unique_lookup_def mongo_insert_def Let_def
      split: prod.splits sum.splits option.splits)

lemma unique_lookup_collection:
  "fst (unique_lookup r (s\<lparr>savedPlaces := docs\<rparr>)) = fst (unique_lookup r s)"
  by (simp add: unique_lookup_def mongo_insert_def Let_def
      split: prod.splits sum.splits option.splits)

lemma route_insert_flag:
  "fst (nearby_places (r\<lparr>mongoInsertFails := b\<rparr>) s) = fst (nearby_places r s)"
  by (simp add: nearby_places_def mongo_find_def unique_lookup_insert_flag
      split: option.splits sum.splits)

lemma route_find_failure:
  assumes "redis_get (cache s) (now r) (cacheKey (lat r) (lon r)) = None" "mongoFindFails r"
  shows "nearby_places r s = unique_lookup r s"
  using assms by (simp add: nearby_places_def mongo_find_def)

lemma route_empty_collection:
  assumes "redis_get (cache s) (now r) (cacheKey (lat r) (lon r)) = None"
  shows "fst (nearby_places (r\<lparr>mongoFindFails := False\<rparr>) (s\<lparr>savedPlaces := []\<rparr>))
    = fst (unique_lookup r s)"
  using assms
  by (simp add: nearby_places_def mongo_find_def findOne_def unique_lookup_find_flag
      unique_lookup_collection)

lemma unique_lookup_save_fails:
  assumes "mongoInsertFails r"
    and "checkUniqueRequestLimit (counters s) (now r) (ip r)"
    and "incrementUniqueRequestCount (counters s) (now r) (now r + writeDelay r) (ip r)
      = Inr counters'"
    and "getNearbyPlaces (lat r) (lon r) (placesRes r) (isoRes r) = (Inr sortedPoi, sent)"
    and "error_member sortedPoi = None"
  shows "unique_lookup r s =
     (\<lparr>status = 200,
       body = Json (Envelope \<lparr>forCoordinates = (lat r, lon r), requestedBy = ip r,
                POIbyCategory = sortedPoi\<rparr>)\<rparr>,
      s\<lparr>counters := counters', upstream := upstream s @ sent,
        cache := (cache s)(cacheKey (lat r) (lon r) \<mapsto>
           (Envelope \<lparr>forCoordinates = (lat r, lon r), requestedBy = ip r,
                POIbyCategory = sortedPoi\<rparr>, Some (now r + writeDelay r + 21600000)))\<rparr>)"
  using assms by (simp add: unique_lookup_def mongo_insert_def redis_set_ex_def Let_def)

section \<open>Properties of the lookup orchestrator\<close>

lemma sortByCategory_bucket:
  "bucket l (snd (sortByCategory p tags a)) =
     bucket l a @ (if first_label tags = Some l then [add_label l p] else [])"
proof (cases "first_label tags")
  case None
  then show ?thesis by (simp add: sortByCategory_unmatched)
next
  case (Some l')
  then show ?thesis
    using sortByCategory_matched(3) [OF Some, of p a]
      sortByCategory_matched(4) [OF Some, of l p a]
    by (cases "l = l'") auto
qed

lemma categorize_bucket:
  "bucket l (categorize ps a) =
     bucket l a @ map (add_label l) (filter (\<lambda>p. first_label (categories p) = Some l) ps)"
proof (induction ps arbitrary: a)
  case Nil
  then show ?case by (simp add: categorize_def)
next
  case (Cons p ps)
  have "categorize (p # ps) a = categorize ps (snd (sortByCategory p (categories p) a))"
    by (simp add: categorize_def)
  then show ?case
    by (simp add: Cons.IH sortByCategory_bucket)
qed

lemma sorted_poi_eqI:
  fixes a b :: sorted_poi
  assumes "\<And>l. l \<in> set labels \<Longrightarrow> bucket l a = bucket l b"
  shows "a = b"
proof -
  have "supermarket a = supermarket b" "pharmacy a = pharmacy b"
    "restaurant a = restaurant b" "fastfood a = fastfood b" "hotel a = hotel b"
    using assms [of "''supermarket''"] assms [of "''pharmacy''"] assms [of "''restaurant''"]
      assms [of "''fastfood''"] assms [of "''hotel''"]
    by (simp_all add: labels_def rules_def bucket_def)
  then show ?thesis by simp
qed

lemma bucket_complete_mapping:
  "l \<in> set labels \<Longrightarrow> bucket l (complete_mapping fs polygon) = expected_bucket l fs polygon"
  by (auto simp: labels_def rules_def bucket_def complete_mapping_def)

lemma categorize_complete:
  "categorize (filter (\<lambda>p. pointInPolygon (coordinates p) polygon = Some True) fs) no_poi
     = complete_mapping fs polygon"
proof (rule sorted_poi_eqI)
  fix l assume l: "l \<in> set labels"
  have "bucket l no_poi = []"
    by (simp add: bucket_def no_poi_def)
  then show "bucket l
      (categorize (filter (\<lambda>p. pointInPolygon (coordinates p) polygon = Some True) fs) no_poi)
      = bucket l (complete_mapping fs polygon)"
    by (simp add: categorize_bucket bucket_complete_mapping [OF l] expected_bucket_def
        inside_polygon_def pointInPolygon_crossings conj_commute)
qed

lemma filter_throwing_ring:
  "filter_throwing (inside_isochrone (Some polygon)) fs
     = Inr (filter (\<lambda>p. pointInPolygon (coordinates p) polygon = Some True) fs)"
  by (induction fs) (simp_all add: inside_isochrone_def)

lemma filter_throwing_ringless:
  "filter_throwing (inside_isochrone None) fs =
     (if fs = [] then Inr []
      else Inl ''TypeError: Cannot read properties of undefined (reading length)'')"
  by (cases fs) (simp_all add: inside_isochrone_def)

text \<open>
  With a feature list, \<open>getNearbyPlaces\<close> returns the error object, throws, or returns
  the complete mapping.
\<close>

lemma getNearbyPlaces_with_features:
  "features d = Some fs \<Longrightarrow>
   getNearbyPlaces la lo (PlacesData d) isoc =
     (case isoc of
        IsoFailure err \<Rightarrow> Inr (ErrorObject (''Error getting mb isochrone:'' @ err))
      | IsoBody None \<Rightarrow>
          if fs = [] then Inr (Sorted no_poi)
          else Inl ''TypeError: Cannot read properties of undefined (reading length)''
      | IsoBody (Some polygon) \<Rightarrow> Inr (Sorted (complete_mapping fs polygon)),
      [PlacesRequest lo la, IsochroneRequest lo la])"
proof -
  assume f: "features d = Some fs"
  have e: "categorize [] no_poi = no_poi" by (simp add: categorize_def)
  show ?thesis
  proof (cases isoc)
    case (IsoFailure err)
    then show ?thesis using f by (simp add: getNearbyPlaces_def)
  next
    case (IsoBody ring)
    show ?thesis
    proof (cases ring)
      case None
      then show ?thesis
        using f IsoBody by (simp add: getNearbyPlaces_def filter_throwing_ringless e)
    next
      case (Some polygon)
      then show ?thesis
        using f IsoBody
        by (simp add: getNearbyPlaces_def filter_throwing_ring categorize_complete)
    qed
  qed
qed

section \<open>The quota\<close>

text \<open>
  Claim C3, as amended. The quota counts within a fixed hour and not within a rolling
  one. When a client has no live counter at some time, at most 5 of its lookups that miss
  both cache tiers are admitted during the hour from that time on, whatever other
  requests are served in between. When a lookup that misses both tiers finds no live
  counter and is followed by further lookups of the same client that miss both tiers
  within the hour of the counter, the first five of the run are admitted and every later
  one is
  answered with the status 429 and the code \<open>UNIQUE_REQUESTS_LIMIT_EXCEEDED\<close>; of
  six, the sixth is denied. A request whose coordinate is found in the fast tier, or in
  the durable tier by a lookup that does not fail, is answered with the status 200 and
  the stored entry whatever the counter holds, and leaves the counters as they are.
\<close>

theorem quota_fresh_window:
  "(\<forall>k t0 rs s.
      redis_get (counters s) t0 k = None \<and>
      (\<forall>r\<in>set rs. t0 \<le> now r \<and> now r + writeDelay r < t0 + 3600000) \<longrightarrow>
      admitted_by k rs s \<le> 5) \<and>
   (\<forall>r rs s.
      redis_get (counters s) (now r) (ip r) = None \<and>
      (\<forall>q\<in>set rs. ip q = ip r \<and>
         now q + writeDelay q < now r + writeDelay r + 3600000) \<and>
      all_miss (r # rs) s \<longrightarrow>
      (\<forall>res\<in>set (take 5 (fst (serve (r # rs) s))). status res \<noteq> 429) \<and>
      (\<forall>res\<in>set (drop 5 (fst (serve (r # rs) s))). res = quota_exceeded) \<and>
      (length rs = 5 \<longrightarrow> fst (serve (r # rs) s) ! 5 = quota_exceeded)) \<and>
   quota_exceeded =
     \<lparr>status = 429,
      body = ErrorBody
        (JStr ''Too many unique location requests. Maximum 5 new locations per hour.'')
        (Some ''UNIQUE_REQUESTS_LIMIT_EXCEEDED'')\<rparr> \<and>
   (\<forall>r s v.
      redis_get (cache s) (now r) (cacheKey (lat r) (lon r)) = Some v \<longrightarrow>
      nearby_places r s = (\<lparr>status = 200, body = Json v\<rparr>, s)) \<and>
   (\<forall>r s d.
      redis_get (cache s) (now r) (cacheKey (lat r) (lon r)) = None \<and>
      mongo_find r s = Inr (Some d) \<longrightarrow>
      fst (nearby_places r s) = \<lparr>status = 200, body = Json (Document d)\<rparr> \<and>
      counters (snd (nearby_places r s)) = counters s)"
proof (intro conjI allI impI)
  fix k t0 and rs :: "request list" and s :: state
  assume "redis_get (counters s) t0 k = None \<and>
      (\<forall>r\<in>set rs. t0 \<le> now r \<and> now r + writeDelay r < t0 + 3600000)"
  then show "admitted_by k rs s \<le> 5"
    using admitted_window [of s t0 k rs] by blast
next
  fix r rs s
  assume h: "redis_get (counters s) (now r) (ip r) = None \<and>
      (\<forall>q\<in>set rs. ip q = ip r \<and>
         now q + writeDelay q < now r + writeDelay r + 3600000) \<and> all_miss (r # rs) s"
  then have w: "(\<forall>res\<in>set (take 5 (fst (serve (r # rs) s))). status res \<noteq> 429) \<and>
         (\<forall>res\<in>set (drop 5 (fst (serve (r # rs) s))). res = quota_exceeded)"
    using serve_fresh_window [of s r rs] by blast
  from w show "\<forall>res\<in>set (take 5 (fst (serve (r # rs) s))). status res \<noteq> 429" by blast
  from w show d: "\<forall>res\<in>set (drop 5 (fst (serve (r # rs) s))). res = quota_exceeded" by blast
  show "fst (serve (r # rs) s) ! 5 = quota_exceeded" if "length rs = 5"
  proof -
    have len: "length (fst (serve (r # rs) s)) = 6"
      using that by (simp only: length_serve list.size)
    then have "5 < length (fst (serve (r # rs) s))" by simp
    from Cons_nth_drop_Suc [OF this]
    have "drop 5 (fst (serve (r # rs) s))
        = fst (serve (r # rs) s) ! 5 # drop (Suc 5) (fst (serve (r # rs) s))"
      by simp
    then have "fst (serve (r # rs) s) ! 5 \<in> set (drop 5 (fst (serve (r # rs) s)))"
      by (simp only: list.set_intros(1))
    with d show ?thesis by blast
  qed
next
  show "quota_exceeded =
     \<lparr>status = 429,
      body = ErrorBody
        (JStr ''Too many unique location requests. Maximum 5 new locations per hour.'')
        (Some ''UNIQUE_REQUESTS_LIMIT_EXCEEDED'')\<rparr>"
    by (simp add: quota_exceeded_def)
next
  fix r :: request and s :: state and v
  assume "redis_get (cache s) (now r) (cacheKey (lat r) (lon r)) = Some v"
  then show "nearby_places r s = (\<lparr>status = 200, body = Json v\<rparr>, s)"
    by (rule route_fast_hit)
next
  fix r :: request and s :: state and d
  assume h: "redis_get (cache s) (now r) (cacheKey (lat r) (lon r)) = None \<and>
      mongo_find r s = Inr (Some d)"
  then show "fst (nearby_places r s) = \<lparr>status = 200, body = Json (Document d)\<rparr>"
    by (simp add: route_durable_hit)
  from h show "counters (snd (nearby_places r s)) = counters s"
    by (simp add: route_durable_hit)
qed

text \<open>
  The witness for claim C3: six lookups of new places within six seconds from the empty
  state, a seventh for the first place, served from the fast tier while the counter
  stands at 5, and a lookup served from the durable tier.
\<close>

theorem quota_fresh_window_witness:
  "(redis_get (counters init) 0 ''203.0.113.7'' = None \<and>
    list_all (\<lambda>r. 0 \<le> now r \<and> now r + writeDelay r < 0 + 3600000)
      (visit 0 1 # five_more) \<and>
    admitted_by ''203.0.113.7'' (visit 0 1 # five_more) init \<le> 5) \<and>
   (redis_get (counters init) (now (visit 0 1)) (ip (visit 0 1)) = None \<and>
    list_all (\<lambda>q. ip q = ip (visit 0 1) \<and>
        now q + writeDelay q < now (visit 0 1) + writeDelay (visit 0 1) + 3600000) five_more \<and>
    all_miss (visit 0 1 # five_more) init \<and> length five_more = 5) \<and>
   fst (serve (visit 0 1 # five_more) init) ! 5 = quota_exceeded \<and>
   (redis_get (counters spent_state) 6000 ''203.0.113.7'' = Some 5 \<and>
    redis_get (cache spent_state) (now (visit 6000 1))
        (cacheKey (lat (visit 6000 1)) (lon (visit 6000 1)))
      = Some (Envelope \<lparr>forCoordinates = (1, - 75), requestedBy = ''203.0.113.7'',
                 POIbyCategory = Sorted no_poi\<rparr>)) \<and>
   nearby_places (visit 6000 1) spent_state
      = (\<lparr>status = 200, body = Json (Envelope \<lparr>forCoordinates = (1, - 75),
            requestedBy = ''203.0.113.7'', POIbyCategory = Sorted no_poi\<rparr>)\<rparr>, spent_state) \<and>
   (redis_get (cache late_state) (now (visit 21600000 1))
       (cacheKey (lat (visit 21600000 1)) (lon (visit 21600000 1))) = None \<and>
    mongo_find (visit 21600000 1) late_state = Inr (Some stored_doc)) \<and>
   fst (nearby_places (visit 21600000 1) late_state)
      = \<lparr>status = 200, body = Json (Document stored_doc)\<rparr> \<and>
   counters (snd (nearby_places (visit 21600000 1) late_state)) = counters late_state"
proof -
  have len: "length five_more = 5" by (simp add: five_more_def)
  have dur: "redis_get (cache late_state) (now (visit 21600000 1))
       (cacheKey (lat (visit 21600000 1)) (lon (visit 21600000 1))) = None \<and>
    mongo_find (visit 21600000 1) late_state = Inr (Some stored_doc)"
    using late_state_expired by (simp add: mongo_find_def)
  have win: "redis_get (counters init) 0 ''203.0.113.7'' = None \<and>
      (\<forall>r\<in>set (visit 0 1 # five_more). 0 \<le> now r \<and> now r + writeDelay r < 0 + 3600000)"
    by (simp add: five_more_def visit_def init_def redis_get_def)
  from quota_fresh_window win
  have adm: "admitted_by ''203.0.113.7'' (visit 0 1 # five_more) init \<le> 5"
    by blast
  from quota_fresh_window fresh_run len spent_state_facts dur
  have rest: "fst (serve (visit 0 1 # five_more) init) ! 5 = quota_exceeded \<and>
      nearby_places (visit 6000 1) spent_state
        = (\<lparr>status = 200, body = Json (Envelope \<lparr>forCoordinates = (1, - 75),
            requestedBy = ''203.0.113.7'', POIbyCategory = Sorted no_poi\<rparr>)\<rparr>, spent_state) \<and>
      fst (nearby_places (visit 21600000 1) late_state)
        = \<lparr>status = 200, body = Json (Document stored_doc)\<rparr> \<and>
      counters (snd (nearby_places (visit 21600000 1) late_state)) = counters late_state"
    by blast
  from win adm fresh_run len spent_state_facts dur rest show ?thesis
    unfolding list_all_iff by blast
qed

text \<open>
  Claim C3, as stated, fails: the window is fixed by the first lookup and not rolling.
  After one lookup at time 0, six lookups of new places by the same client between
  3599 s and 3600.004 s miss both tiers, lie within one hour, and are all six admitted,
  because the counter expires at 3600 s and starts again at 1.
\<close>

theorem quota_sixth_admitted:
  "map ip six_visits = [''203.0.113.7'', ''203.0.113.7'', ''203.0.113.7'', ''203.0.113.7'',
                      ''203.0.113.7'', ''203.0.113.7''] \<and>
   map now six_visits = [3599000, 3600000, 3600001, 3600002, 3600003, 3600004] \<and>
   all_miss six_visits late_state \<and>
   map status (fst (serve six_visits late_state)) = [200, 200, 200, 200, 200, 200] \<and>
   fst (serve six_visits late_state) ! 5 \<noteq> quota_exceeded"
proof -
  have who: "map ip six_visits = [''203.0.113.7'', ''203.0.113.7'', ''203.0.113.7'',
      ''203.0.113.7'', ''203.0.113.7'', ''203.0.113.7'']"
    by (simp add: six_visits_def visit_def)
  have times: "map now six_visits = [3599000, 3600000, 3600001, 3600002, 3600003, 3600004]"
    by (simp add: six_visits_def visit_def)
  have run: "all_miss six_visits late_state \<and>
      map status (fst (serve six_visits late_state)) = [200, 200, 200, 200, 200, 200]"
    unfolding late_state_eq
    by (simp add: six_visits_def visit_def route_defs Let_def)
  have "length (fst (serve six_visits late_state)) = 6"
    unfolding length_serve by (simp add: six_visits_def)
  then have "status (fst (serve six_visits late_state) ! 5)
      = map status (fst (serve six_visits late_state)) ! 5"
    by simp
  also have "\<dots> = 200"
    using run by simp
  finally have "fst (serve six_visits late_state) ! 5 \<noteq> quota_exceeded"
    by (auto simp: quota_exceeded_def)
  with who times run show ?thesis
    by blast
qed

text \<open>
  Claim C10 fails on the code. \<open>incrementUniqueRequestCount\<close> creates an absent
  counter with the value 1 and an expiry one hour ahead, and increments a counter that
  is live at both of its commands without touching the expiry. But the counter is read
  by one command and written by another: where it expires between the two, \<open>INCR\<close>
  finds no key and creates the counter with the value 1 and no expiry. The window of
  this counter never ends, later lookups only increment it, and from the value 5 on the
  client is denied at every time.
\<close>

lemma stuck_state_eq:
  "counters (snd (nearby_places racing_visit late_state)) = [''203.0.113.7'' \<mapsto> (1, None)] \<and>
   status (fst (nearby_places racing_visit late_state)) = 200 \<and>
   counters stuck_state = [''203.0.113.7'' \<mapsto> (5, None)] \<and>
   map status (fst (serve (racing_visit # four_more) late_state)) = [200, 200, 200, 200, 200]"
  unfolding stuck_state_def late_state_eq
  by (simp add: racing_visit_def four_more_def visit_def route_defs Let_def)

theorem quota_counter_immortal:
  "counters late_state ''203.0.113.7'' = Some (1, Some 3600000) \<and>
   now racing_visit = 3599999 \<and> writeDelay racing_visit = 2 \<and>
   incrementUniqueRequestCount (counters late_state) 3599999 (3599999 + 2) ''203.0.113.7''
     = Inr ((counters late_state)(''203.0.113.7'' \<mapsto> (1, None))) \<and>
   status (fst (nearby_places racing_visit late_state)) = 200 \<and>
   counters (snd (nearby_places racing_visit late_state)) ''203.0.113.7'' = Some (1, None) \<and>
   map status (fst (serve (racing_visit # four_more) late_state)) = [200, 200, 200, 200, 200] \<and>
   counters stuck_state ''203.0.113.7'' = Some (5, None) \<and>
   (\<forall>t. redis_get (counters stuck_state) t ''203.0.113.7'' = Some 5) \<and>
   (\<forall>t. \<not> checkUniqueRequestLimit (counters stuck_state) t ''203.0.113.7'') \<and>
   fst (nearby_places (visit 31536000000 9) stuck_state) = quota_exceeded"
proof -
  have a: "counters late_state ''203.0.113.7'' = Some (1, Some 3600000)"
    unfolding late_state_eq by simp
  have b: "now racing_visit = 3599999 \<and> writeDelay racing_visit = 2"
    by (simp add: racing_visit_def visit_def)
  have c: "incrementUniqueRequestCount (counters late_state) 3599999 (3599999 + 2)
      ''203.0.113.7'' = Inr ((counters late_state)(''203.0.113.7'' \<mapsto> (1, None)))"
  proof (rule increment_expired [where store = "counters late_state" and k = "''203.0.113.7''"
        and c = 1 and x = "Some 3600000"])
    show "counters late_state ''203.0.113.7'' = Some (1, Some 3600000)" by (rule a)
    show "live 3599999 (1 :: int, Some (3600000 :: nat))" by (simp add: live_def)
    show "\<not> live (3599999 + 2) (1 :: int, Some (3600000 :: nat))" by (simp add: live_def)
  qed
  have g: "redis_get (counters stuck_state) t ''203.0.113.7'' = Some 5" for t
    using stuck_state_eq by (simp add: redis_get_def live_def)
  then have d: "\<not> checkUniqueRequestLimit (counters stuck_state) t ''203.0.113.7''" for t
    by (simp add: checkUniqueRequestLimit_def)
  have m: "cache_miss (visit 31536000000 9) stuck_state"
    unfolding stuck_state_def late_state_eq
    by (simp add: racing_visit_def four_more_def visit_def route_defs Let_def)
  have "unique_lookup (visit 31536000000 9) stuck_state = (quota_exceeded, stuck_state)"
    using g [of 31536000000] by (intro unique_lookup_denied [of _ _ 5]) (simp_all add: visit_def)
  with m have e: "fst (nearby_places (visit 31536000000 9) stuck_state) = quota_exceeded"
    by (simp add: route_miss)
  from a b c stuck_state_eq g d e show ?thesis
    by simp
qed

section \<open>The two cache tiers\<close>

text \<open>
  Claim C4. A request found in the fast tier is answered with the stored entry and
  changes nothing, whatever the durable tier holds and whether or not it fails. A
  request that misses the fast tier and is found in the durable tier, looked up by the
  rounded coordinates, is answered with the stored document, which is written to the
  fast tier with an expiry of six hours; a later request with the same rounded
  coordinates within these six hours is answered from the fast tier.
\<close>

theorem cache_read_path:
  "(\<forall>r s v.
      redis_get (cache s) (now r) (cacheKey (lat r) (lon r)) = Some v \<longrightarrow>
      nearby_places r s = (\<lparr>status = 200, body = Json v\<rparr>, s) \<and>
      (\<forall>b docs. fst (nearby_places (r\<lparr>mongoFindFails := b\<rparr>) (s\<lparr>savedPlaces := docs\<rparr>))
          = \<lparr>status = 200, body = Json v\<rparr>)) \<and>
   (\<forall>r s d.
      redis_get (cache s) (now r) (cacheKey (lat r) (lon r)) = None \<and>
      \<not> mongoFindFails r \<and>
      findOne (savedPlaces s) (cacheKey (lat r) (lon r)) = Some d \<longrightarrow>
      generalCoordinates d = cacheKey (lat r) (lon r) \<and>
      nearby_places r s =
        (\<lparr>status = 200, body = Json (Document d)\<rparr>,
         s\<lparr>cache := (cache s)(cacheKey (lat r) (lon r)
                         \<mapsto> (Document d, Some (now r + 21600000)))\<rparr>) \<and>
      (\<forall>q. cacheKey (lat q) (lon q) = cacheKey (lat r) (lon r) \<and> now q < now r + 21600000 \<longrightarrow>
         nearby_places q (snd (nearby_places r s))
           = (\<lparr>status = 200, body = Json (Document d)\<rparr>, snd (nearby_places r s))))"
proof (intro conjI allI impI)
  fix r :: request and s :: state and v
  assume h: "redis_get (cache s) (now r) (cacheKey (lat r) (lon r)) = Some v"
  then show "nearby_places r s = (\<lparr>status = 200, body = Json v\<rparr>, s)"
    by (rule route_fast_hit)
  show "fst (nearby_places (r\<lparr>mongoFindFails := b\<rparr>) (s\<lparr>savedPlaces := docs\<rparr>))
          = \<lparr>status = 200, body = Json v\<rparr>" for b docs
    using h by (simp add: route_fast_hit)
next
  fix r :: request and s :: state and d
  assume h: "redis_get (cache s) (now r) (cacheKey (lat r) (lon r)) = None \<and>
      \<not> mongoFindFails r \<and> findOne (savedPlaces s) (cacheKey (lat r) (lon r)) = Some d"
  then have f: "mongo_find r s = Inr (Some d)"
    by (simp add: mongo_find_def)
  from h show "generalCoordinates d = cacheKey (lat r) (lon r)"
    by (blast dest: findOne_key)
  show step: "nearby_places r s =
        (\<lparr>status = 200, body = Json (Document d)\<rparr>,
         s\<lparr>cache := (cache s)(cacheKey (lat r) (lon r)
                         \<mapsto> (Document d, Some (now r + 21600000)))\<rparr>)"
    using h f by (simp add: route_durable_hit redis_set_ex_def)
  fix q :: request
  assume q: "cacheKey (lat q) (lon q) = cacheKey (lat r) (lon r) \<and> now q < now r + 21600000"
  have "redis_get (cache (snd (nearby_places r s))) (now q) (cacheKey (lat q) (lon q))
      = Some (Document d)"
    using q by (simp add: step redis_get_def live_def)
  then show "nearby_places q (snd (nearby_places r s))
           = (\<lparr>status = 200, body = Json (Document d)\<rparr>, snd (nearby_places r s))"
    by (rule route_fast_hit)
qed

text \<open>
  The witness for claim C4: a fast-tier hit, a durable-tier hit after the fast-tier entry
  has expired, and the fast-tier hit that follows it.
\<close>

theorem cache_read_path_witness:
  "(redis_get (cache late_state) (now (visit 5 1)) (cacheKey (lat (visit 5 1)) (lon (visit 5 1)))
      = Some (Envelope \<lparr>forCoordinates = (1, - 75), requestedBy = ''203.0.113.7'',
                 POIbyCategory = Sorted no_poi\<rparr>) \<and>
    fst (nearby_places ((visit 5 1)\<lparr>mongoFindFails := True\<rparr>) (late_state\<lparr>savedPlaces := []\<rparr>))
      = \<lparr>status = 200, body = Json (Envelope \<lparr>forCoordinates = (1, - 75),
            requestedBy = ''203.0.113.7'', POIbyCategory = Sorted no_poi\<rparr>)\<rparr>) \<and>
   (redis_get (cache late_state) (now (visit 21600000 1))
       (cacheKey (lat (visit 21600000 1)) (lon (visit 21600000 1))) = None \<and>
    \<not> mongoFindFails (visit 21600000 1) \<and>
    findOne (savedPlaces late_state)
       (cacheKey (lat (visit 21600000 1)) (lon (visit 21600000 1))) = Some stored_doc \<and>
    fst (nearby_places (visit 21600000 1) late_state)
      = \<lparr>status = 200, body = Json (Document stored_doc)\<rparr>) \<and>
   (cacheKey (lat (visit 30000000 1.0004)) (lon (visit 30000000 1.0004))
      = cacheKey (lat (visit 21600000 1)) (lon (visit 21600000 1)) \<and>
    now (visit 30000000 1.0004) < now (visit 21600000 1) + 21600000 \<and>
    nearby_places (visit 30000000 1.0004) (snd (nearby_places (visit 21600000 1) late_state))
      = (\<lparr>status = 200, body = Json (Document stored_doc)\<rparr>,
         snd (nearby_places (visit 21600000 1) late_state)))"
proof -
  have q: "cacheKey (lat (visit 30000000 1.0004)) (lon (visit 30000000 1.0004))
      = cacheKey (lat (visit 21600000 1)) (lon (visit 21600000 1)) \<and>
    now (visit 30000000 1.0004) < now (visit 21600000 1) + 21600000"
    by (simp add: visit_def cacheKey_def roundCord_def parseFloat_def toFixed_def)
  from cache_read_path [THEN conjunct1, rule_format, OF late_state_hit]
  have a: "fst (nearby_places ((visit 5 1)\<lparr>mongoFindFails := True\<rparr>)
        (late_state\<lparr>savedPlaces := []\<rparr>))
      = \<lparr>status = 200, body = Json (Envelope \<lparr>forCoordinates = (1, - 75),
            requestedBy = ''203.0.113.7'', POIbyCategory = Sorted no_poi\<rparr>)\<rparr>"
    by blast
  from cache_read_path [THEN conjunct2, rule_format, OF late_state_expired]
  have b: "nearby_places (visit 21600000 1) late_state =
        (\<lparr>status = 200, body = Json (Document stored_doc)\<rparr>,
         late_state\<lparr>cache := (cache late_state)
           (cacheKey (lat (visit 21600000 1)) (lon (visit 21600000 1))
              \<mapsto> (Document stored_doc, Some (now (visit 21600000 1) + 21600000)))\<rparr>)"
    and c: "\<forall>q. cacheKey (lat q) (lon q)
               = cacheKey (lat (visit 21600000 1)) (lon (visit 21600000 1)) \<and>
             now q < now (visit 21600000 1) + 21600000 \<longrightarrow>
         nearby_places q (snd (nearby_places (visit 21600000 1) late_state))
           = (\<lparr>status = 200, body = Json (Document stored_doc)\<rparr>,
              snd (nearby_places (visit 21600000 1) late_state))"
    by blast+
  from b have b': "fst (nearby_places (visit 21600000 1) late_state)
      = \<lparr>status = 200, body = Json (Document stored_doc)\<rparr>"
    by simp
  from c q have c': "nearby_places (visit 30000000 1.0004)
        (snd (nearby_places (visit 21600000 1) late_state))
      = (\<lparr>status = 200, body = Json (Document stored_doc)\<rparr>,
         snd (nearby_places (visit 21600000 1) late_state))"
    by blast
  from late_state_hit late_state_expired a b' c' q show ?thesis
    by blast
qed

text \<open>
  Claim C8. When MongoDB fails at the cache check, the request goes on to the fresh
  lookup, with the response it would have had on an empty collection. Whether MongoDB
  fails at the save does not change the response: a successful lookup is answered with
  the status 200 and its envelope also when the save fails, and the collection is then
  unchanged.
\<close>

theorem durable_failures_absorbed:
  "(\<forall>r s.
      redis_get (cache s) (now r) (cacheKey (lat r) (lon r)) = None \<and> mongoFindFails r \<longrightarrow>
      nearby_places r s = unique_lookup r s \<and>
      fst (nearby_places r s)
        = fst (nearby_places (r\<lparr>mongoFindFails := False\<rparr>) (s\<lparr>savedPlaces := []\<rparr>))) \<and>
   (\<forall>r s b. fst (nearby_places (r\<lparr>mongoInsertFails := b\<rparr>) s) = fst (nearby_places r s)) \<and>
   (\<forall>r s counters' sortedPoi sent.
      cache_miss r s \<and> mongoInsertFails r \<and>
      checkUniqueRequestLimit (counters s) (now r) (ip r) \<and>
      incrementUniqueRequestCount (counters s) (now r) (now r + writeDelay r) (ip r)
        = Inr counters' \<and>
      getNearbyPlaces (lat r) (lon r) (placesRes r) (isoRes r) = (Inr sortedPoi, sent) \<and>
      error_member sortedPoi = None \<longrightarrow>
      fst (nearby_places r s)
        = \<lparr>status = 200,
           body = Json (Envelope \<lparr>forCoordinates = (lat r, lon r), requestedBy = ip r,
                    POIbyCategory = sortedPoi\<rparr>)\<rparr> \<and>
      savedPlaces (snd (nearby_places r s)) = savedPlaces s)"
proof (intro conjI allI impI)
  fix r :: request and s :: state
  assume h: "redis_get (cache s) (now r) (cacheKey (lat r) (lon r)) = None \<and> mongoFindFails r"
  then show a: "nearby_places r s = unique_lookup r s"
    by (simp add: route_find_failure)
  from h show "fst (nearby_places r s)
        = fst (nearby_places (r\<lparr>mongoFindFails := False\<rparr>) (s\<lparr>savedPlaces := []\<rparr>))"
    by (simp add: a route_empty_collection)
next
  fix r :: request and s :: state and b
  show "fst (nearby_places (r\<lparr>mongoInsertFails := b\<rparr>) s) = fst (nearby_places r s)"
    by (rule route_insert_flag)
next
  fix r :: request and s :: state and counters' sortedPoi sent
  assume h: "cache_miss r s \<and> mongoInsertFails r \<and>
      checkUniqueRequestLimit (counters s) (now r) (ip r) \<and>
      incrementUniqueRequestCount (counters s) (now r) (now r + writeDelay r) (ip r)
        = Inr counters' \<and>
      getNearbyPlaces (lat r) (lon r) (placesRes r) (isoRes r) = (Inr sortedPoi, sent) \<and>
      error_member sortedPoi = None"
  then have "nearby_places r s = unique_lookup r s"
    by (simp add: route_miss)
  with h unique_lookup_save_fails [of r s counters' sortedPoi sent]
  have e: "nearby_places r s =
     (\<lparr>status = 200,
       body = Json (Envelope \<lparr>forCoordinates = (lat r, lon r), requestedBy = ip r,
                POIbyCategory = sortedPoi\<rparr>)\<rparr>,
      s\<lparr>counters := counters', upstream := upstream s @ sent,
        cache := (cache s)(cacheKey (lat r) (lon r) \<mapsto>
           (Envelope \<lparr>forCoordinates = (lat r, lon r), requestedBy = ip r,
                POIbyCategory = sortedPoi\<rparr>, Some (now r + writeDelay r + 21600000)))\<rparr>)"
    by simp
  show "fst (nearby_places r s)
        = \<lparr>status = 200,
           body = Json (Envelope \<lparr>forCoordinates = (lat r, lon r), requestedBy = ip r,
                    POIbyCategory = sortedPoi\<rparr>)\<rparr>"
    by (simp add: e)
  show "savedPlaces (snd (nearby_places r s)) = savedPlaces s"
    by (simp add: e)
qed

text \<open>
  The witness for claim C8: a lookup during which the cache check fails although the
  collection holds the place, and a lookup during which the save fails.
\<close>

theorem durable_failures_absorbed_witness:
  "(redis_get (cache late_state) (now failed_find)
       (cacheKey (lat failed_find) (lon failed_find)) = None \<and>
    mongoFindFails failed_find \<and>
    findOne (savedPlaces late_state) (cacheKey (lat failed_find) (lon failed_find))
      = Some stored_doc \<and>
    nearby_places failed_find late_state = unique_lookup failed_find late_state \<and>
    fst (nearby_places failed_find late_state)
      = \<lparr>status = 200,
         body = Json (Envelope \<lparr>forCoordinates = (1, - 75), requestedBy = ''203.0.113.7'',
                  POIbyCategory = Sorted no_poi\<rparr>)\<rparr>) \<and>
   (cache_miss failed_save init \<and> mongoInsertFails failed_save \<and>
    checkUniqueRequestLimit (counters init) (now failed_save) (ip failed_save) \<and>
    incrementUniqueRequestCount (counters init) (now failed_save)
        (now failed_save + writeDelay failed_save) (ip failed_save)
      = Inr [''203.0.113.7'' \<mapsto> (1, Some 3600000)] \<and>
    getNearbyPlaces (lat failed_save) (lon failed_save) (placesRes failed_save)
        (isoRes failed_save)
      = (Inr (Sorted no_poi), [PlacesRequest (- 75) 1, IsochroneRequest (- 75) 1]) \<and>
    error_member (Sorted no_poi) = None \<and>
    fst (nearby_places failed_save init)
      = \<lparr>status = 200,
         body = Json (Envelope \<lparr>forCoordinates = (1, - 75), requestedBy = ''203.0.113.7'',
                  POIbyCategory = Sorted no_poi\<rparr>)\<rparr> \<and>
    savedPlaces (snd (nearby_places failed_save init)) = [])"
proof -
  have a: "redis_get (cache late_state) (now failed_find)
       (cacheKey (lat failed_find) (lon failed_find)) = None \<and> mongoFindFails failed_find"
    unfolding late_state_eq by (simp add: failed_find_def visit_def route_defs)
  have a': "findOne (savedPlaces late_state) (cacheKey (lat failed_find) (lon failed_find))
      = Some stored_doc"
    unfolding late_state_eq by (simp add: failed_find_def visit_def route_defs stored_doc_def)
  have b: "fst (unique_lookup failed_find late_state)
      = \<lparr>status = 200,
         body = Json (Envelope \<lparr>forCoordinates = (1, - 75), requestedBy = ''203.0.113.7'',
                  POIbyCategory = Sorted no_poi\<rparr>)\<rparr>"
    unfolding late_state_eq by (simp add: failed_find_def visit_def route_defs Let_def)
  have c: "cache_miss failed_save init \<and> mongoInsertFails failed_save \<and>
    checkUniqueRequestLimit (counters init) (now failed_save) (ip failed_save) \<and>
    incrementUniqueRequestCount (counters init) (now failed_save)
        (now failed_save + writeDelay failed_save) (ip failed_save)
      = Inr [''203.0.113.7'' \<mapsto> (1, Some 3600000)] \<and>
    getNearbyPlaces (lat failed_save) (lon failed_save) (placesRes failed_save)
        (isoRes failed_save)
      = (Inr (Sorted no_poi), [PlacesRequest (- 75) 1, IsochroneRequest (- 75) 1]) \<and>
    error_member (Sorted no_poi) = None"
    by (simp add: failed_save_def visit_def route_defs)
  have d: "savedPlaces init = []" "lat failed_save = 1" "lon failed_save = - 75"
    "ip failed_save = ''203.0.113.7''"
    by (simp_all add: init_def failed_save_def visit_def)
  from durable_failures_absorbed [THEN conjunct1, rule_format, OF a]
  have e: "nearby_places failed_find late_state = unique_lookup failed_find late_state"
    by blast
  from durable_failures_absorbed [THEN conjunct2, THEN conjunct2, rule_format, OF c]
  have f: "fst (nearby_places failed_save init)
      = \<lparr>status = 200,
         body = Json (Envelope \<lparr>forCoordinates = (1, - 75), requestedBy = ''203.0.113.7'',
                  POIbyCategory = Sorted no_poi\<rparr>)\<rparr> \<and>
    savedPlaces (snd (nearby_places failed_save init)) = []"
    by (simp add: d)
  from a a' b c e f show ?thesis
    by simp
qed

section \<open>Provider failures\<close>

lemma provider_error_surfaced:
  assumes "cache_miss r s"
    and "checkUniqueRequestLimit (counters s) (now r) (ip r)"
    and "incrementUniqueRequestCount (counters s) (now r) (now r + writeDelay r) (ip r)
      = Inr counters'"
    and "placesRes r = PlacesData d" "features d = None"
    and "map_of (members d) ''error'' = Some v" "truthy v"
  shows "fst (nearby_places r s) = \<lparr>status = 500, body = ErrorBody v (Some ''API_ERROR'')\<rparr>"
  using assms
  by (simp add: route_miss unique_lookup_def getNearbyPlaces_def error_member_def)

text \<open>
  Claim C6 fails on the code. Where the provider's body has no feature list and no
  truthy member \<open>error\<close>, \<open>getNearbyPlaces\<close> returns the body as it came, the route
  finds no \<open>error\<close> in it, answers with the status 200 and an envelope whose
  \<open>POIbyCategory\<close> is that body, and stores the envelope in both cache tiers. Where
  the provider answers with an error status, \<open>axios\<close> rejects, \<open>getNearbyPlaces\<close>
  throws, and the route answers with the generic body without a code.
\<close>

theorem featureless_body_cached:
  "fst (getNearbyPlaces 40 (- 75) (PlacesData exhausted_body) (IsoBody (Some [])))
     = Inr (ProviderData exhausted_body) \<and>
   fst (nearby_places exhausted_visit init)
     = \<lparr>status = 200,
        body = Json (Envelope \<lparr>forCoordinates = (40, - 75), requestedBy = ''203.0.113.7'',
                 POIbyCategory = ProviderData exhausted_body\<rparr>)\<rparr> \<and>
   redis_get (cache (snd (nearby_places exhausted_visit init))) 1 (cacheKey 40 (- 75))
     = Some (Envelope \<lparr>forCoordinates = (40, - 75), requestedBy = ''203.0.113.7'',
                 POIbyCategory = ProviderData exhausted_body\<rparr>) \<and>
   map POIbyCategory (savedPlaces (snd (nearby_places exhausted_visit init)))
     = [ProviderData exhausted_body] \<and>
   fst (nearby_places rejected_visit init)
     = \<lparr>status = 500, body = ErrorBody (JStr ''Internal server error'') None\<rparr>"
  by (simp add: exhausted_visit_def exhausted_body_def rejected_visit_def visit_def
      internal_error_def route_defs Let_def)

text \<open>
  Claim C7 fails on the code. A failure that the \<open>try\<close> block catches yields the one
  object \<open>{error: ...}\<close>, which the route answers with the status 500 and the code
  \<open>API_ERROR\<close>. But the ring is read inside the block and used outside of it: where
  the isochrone provider answers with a body whose first feature has no ring, nothing
  is caught, \<open>IsochronePolygon\<close> is \<open>undefined\<close>, and the filtering of the first
  feature throws a \<open>TypeError\<close>. \<open>getNearbyPlaces\<close> then returns neither the error
  object nor a mapping, and the route answers with the generic body without a code.
  With a ring around the feature, the lookup returns the mapping with the feature in its
  bucket.
\<close>

theorem ringless_isochrone_thrown:
  "getNearbyPlaces 40 (- 75) (PlacesData one_feature) (IsoFailure ''timeout'')
     = (Inr (ErrorObject ''Error getting mb isochrone:timeout''),
        [PlacesRequest (- 75) 40, IsochroneRequest (- 75) 40]) \<and>
   fst (nearby_places timeout_visit init)
     = \<lparr>status = 500,
        body = ErrorBody (JStr ''Error getting mb isochrone:timeout'') (Some ''API_ERROR'')\<rparr> \<and>
   getNearbyPlaces 40 (- 75) (PlacesData one_feature) (IsoBody None)
     = (Inl ''TypeError: Cannot read properties of undefined (reading length)'',
        [PlacesRequest (- 75) 40, IsochroneRequest (- 75) 40]) \<and>
   fst (nearby_places ringless_visit init)
     = \<lparr>status = 500, body = ErrorBody (JStr ''Internal server error'') None\<rparr> \<and>
   counters (snd (nearby_places ringless_visit init)) ''203.0.113.7''
     = Some (1, Some 3600000) \<and>
   fst (getNearbyPlaces 40 (- 75) (PlacesData one_feature) (IsoBody (Some around_shop)))
     = Inr (Sorted (no_poi\<lparr>supermarket := [add_label ''supermarket'' corner_shop]\<rparr>))"
proof -
  have inside: "pointInPolygon (coordinates corner_shop) around_shop = Some True"
    by (simp add: corner_shop_def around_shop_def pointInPolygon_def pip_loop.simps
        intersect_def js_gt_def js_number_double)
  have a: "getNearbyPlaces 40 (- 75) (PlacesData one_feature) (IsoFailure ''timeout'')
     = (Inr (ErrorObject ''Error getting mb isochrone:timeout''),
        [PlacesRequest (- 75) 40, IsochroneRequest (- 75) 40])"
    by (simp add: getNearbyPlaces_def one_feature_def)
  have b: "getNearbyPlaces 40 (- 75) (PlacesData one_feature) (IsoBody None)
     = (Inl ''TypeError: Cannot read properties of undefined (reading length)'',
        [PlacesRequest (- 75) 40, IsochroneRequest (- 75) 40])"
    by (simp add: getNearbyPlaces_def one_feature_def inside_isochrone_def)
  have c: "fst (getNearbyPlaces 40 (- 75) (PlacesData one_feature) (IsoBody (Some around_shop)))
     = Inr (Sorted (no_poi\<lparr>supermarket := [add_label ''supermarket'' corner_shop]\<rparr>))"
    using inside
    by (simp add: getNearbyPlaces_def one_feature_def inside_isochrone_def categorize_def
        sortByCategory_def add_label_def no_poi_def corner_shop_def Let_def)
  have d: "fst (nearby_places timeout_visit init)
     = \<lparr>status = 500,
        body = ErrorBody (JStr ''Error getting mb isochrone:timeout'') (Some ''API_ERROR'')\<rparr>"
    by (simp add: timeout_visit_def visit_def one_feature_def route_defs Let_def)
  have e: "fst (nearby_places ringless_visit init)
     = \<lparr>status = 500, body = ErrorBody (JStr ''Internal server error'') None\<rparr> \<and>
   counters (snd (nearby_places ringless_visit init)) ''203.0.113.7''
     = Some (1, Some 3600000)"
    by (simp add: ringless_visit_def visit_def one_feature_def internal_error_def
        inside_isochrone_def route_defs Let_def)
  from a b c d e show ?thesis by simp
qed

end
